theory Spec2Isabelle
  imports Main "HOL-Library.Sublist"
begin

section \<open>CMDB relationship traversal (src/tools/relationships.ts)\<close>

text \<open>
  A shallow embedding of the handler of the \<^verbatim>\<open>sn_relationships\<close> tool: root
  resolution, the closures \<^verbatim>\<open>getClass\<close>, \<^verbatim>\<open>extractValue\<close>, \<^verbatim>\<open>extractDisplay\<close>
  and \<^verbatim>\<open>traverse\<close>, and the result record.

  Modelling conventions.
  \<^item> A value of TypeScript type \<^verbatim>\<open>any\<close> or \<^verbatim>\<open>unknown\<close> is a \<open>jsval\<close>: every body
    that \<^verbatim>\<open>client.get\<close> returns, every field read from it, the root's id, name
    and class, the cached classes. Numbers are integers (no decision of the
    handler depends on a fraction). An object is the list of its properties, the
    first entry for a name giving its value. A string is the list of its UTF-8
    bytes; equality, concatenation, \<^verbatim>\<open>split("/")\<close>, \<^verbatim>\<open>includes\<close> and the
    pattern of 32 hexadecimal characters are the same on bytes as on the
    characters.
  \<^item> \<^verbatim>\<open>String.prototype.toLowerCase\<close> is a built-in of the runtime: it is a
    parameter (the field \<open>toLowerCase\<close> of \<open>env\<close>, the first argument of
    \<open>handler\<close>), and every statement holds for every function in its place. The
    examples run with the lowering of the letters A to Z.
  \<^item> The remote store is the record \<open>sn_client\<close>, one function per call site of
    \<^verbatim>\<open>client.get\<close>; a rejected promise is \<open>Threw\<close>, with the text that
    \<^verbatim>\<open>formatError\<close> makes of the error, a fulfilled one is \<open>Reply\<close> of the body
    (\<open>JNull\<close> for HTTP 204). The store answers the same request the same way
    during one call of the handler. The code renders the id of a node into the
    text of the query; the model gives the id itself to the store, so every
    store of the code is a store of the model.
  \<^item> An exception that the code does not catch inside \<^verbatim>\<open>traverse\<close> or
    \<^verbatim>\<open>getClass\<close> (a \<^verbatim>\<open>TypeError\<close> of a property read on \<^verbatim>\<open>null\<close> or
    \<^verbatim>\<open>undefined\<close>, of a loop over a value that is not iterable, of
    \<^verbatim>\<open>toLowerCase\<close> on a value that is not a string) ends the traversal: the
    outcome is \<open>Raised\<close> with the text of the error, and the handler returns the
    error result of its outer \<^verbatim>\<open>catch\<close>. The texts are those of V8; no
    statement depends on them.
  \<^item> The mutable closure variables \<^verbatim>\<open>visited\<close>, \<^verbatim>\<open>classCache\<close> and \<^verbatim>\<open>allRels\<close>
    are the fields of \<open>tstate\<close>, passed through every call. The field \<open>calls\<close> is
    a ghost log of the requests sent to the store, in order; no decision of the
    model reads it, and it is kept when an exception is raised.
  \<^item> Depths are integers (the schema's \<^verbatim>\<open>depth\<close> is a number of levels).
  \<^item> The handler's result is \<open>Inl\<close> of the text of \<^verbatim>\<open>err\<close> or \<open>Inr\<close> of the data
    given to \<^verbatim>\<open>ok\<close>, before serialisation.
\<close>

subsection \<open>Values of the remote store\<close>

datatype jsval =
    JUndefined
  | JNull
  | JBool bool
  | JNum int
  | JStr string
  | JArr "jsval list"
  | JObj "(string \<times> jsval) list"

text \<open>JavaScript truthiness: \<^verbatim>\<open>!field\<close> is \<open>\<not> truthy field\<close>.\<close>

fun truthy :: "jsval \<Rightarrow> bool" where
  "truthy JUndefined = False"
| "truthy JNull = False"
| "truthy (JBool b) = b"
| "truthy (JNum n) = (n \<noteq> 0)"
| "truthy (JStr s) = (s \<noteq> [])"
| "truthy (JArr _) = True"
| "truthy (JObj _) = True"

text \<open>Property access \<^verbatim>\<open>f.key\<close> on a value whose \<^verbatim>\<open>typeof\<close> is \<^verbatim>\<open>"object"\<close>.\<close>

fun get_prop :: "jsval \<Rightarrow> string \<Rightarrow> jsval" where
  "get_prop (JObj ps) k = (case map_of ps k of Some v \<Rightarrow> v | None \<Rightarrow> JUndefined)"
| "get_prop _ k = JUndefined"

text \<open>\<^verbatim>\<open>x && typeof x === "string"\<close>: the string, when \<open>x\<close> is a non-empty string.\<close>

fun truthy_string :: "jsval \<Rightarrow> string option" where
  "truthy_string (JStr s) = (if s \<noteq> [] then Some s else None)"
| "truthy_string _ = None"

text \<open>\<^verbatim>\<open>s.split("/")\<close> for a one-character separator: never the empty list.\<close>

fun split :: "char \<Rightarrow> string \<Rightarrow> string list" where
  "split c [] = [[]]"
| "split c (x # xs) =
     (if x = c then [] # split c xs
      else (x # hd (split c xs)) # tl (split c xs))"

text \<open>The regular expression \<^verbatim>\<open>/^[a-f0-9]{32}$/\<close>.\<close>

definition hex32 :: "string \<Rightarrow> bool" where
  "hex32 s = (length s = 32 \<and> list_all (\<lambda>c. c \<in> set ''abcdef0123456789'') s)"

fun extractValue :: "jsval \<Rightarrow> string" where
  "extractValue field =
     (if \<not> truthy field then []
      else case field of
        JStr s \<Rightarrow> s
      | JObj ps \<Rightarrow>
          (case truthy_string (get_prop field ''value'') of
             Some v \<Rightarrow> v
           | None \<Rightarrow>
              (case truthy_string (get_prop field ''link'') of
                 Some l \<Rightarrow> last (split CHR ''/'' l)
               | None \<Rightarrow> []))
      | _ \<Rightarrow> [])"

fun extractDisplay :: "jsval \<Rightarrow> string" where
  "extractDisplay field =
     (if \<not> truthy field then []
      else case field of
        JStr s \<Rightarrow> (if hex32 s then [] else s)
      | JObj ps \<Rightarrow>
          (case truthy_string (get_prop field ''display_value'') of
             Some dv \<Rightarrow> dv
           | None \<Rightarrow> [])
      | _ \<Rightarrow> [])"

text \<open>\<^verbatim>\<open>x === null || x === undefined\<close>.\<close>

fun nullish :: "jsval \<Rightarrow> bool" where
  "nullish JUndefined = True"
| "nullish JNull = True"
| "nullish _ = False"

fun type_name :: "jsval \<Rightarrow> string" where
  "type_name JNull = ''null''"
| "type_name _ = ''undefined''"

definition cannot_read :: "jsval \<Rightarrow> string \<Rightarrow> string" where
  "cannot_read x p =
     ''Cannot read properties of '' @ type_name x @ '' (reading '' @ [CHR 0x27] @ p @ [CHR 0x27] @ '')''"

text \<open>
  The property read \<^verbatim>\<open>x.p\<close> on any value: a \<^verbatim>\<open>TypeError\<close> on \<^verbatim>\<open>null\<close> and
  \<^verbatim>\<open>undefined\<close>, the property of an object, and \<^verbatim>\<open>undefined\<close> on an array, a
  string, a number or a boolean for every name the handler reads this way
  (\<^verbatim>\<open>result\<close>, \<^verbatim>\<open>name\<close>, \<^verbatim>\<open>sys_id\<close>, \<^verbatim>\<open>sys_class_name\<close>, \<^verbatim>\<open>parent\<close>, \<^verbatim>\<open>child\<close>,
  \<^verbatim>\<open>type\<close>).
\<close>

definition member :: "jsval \<Rightarrow> string \<Rightarrow> string + jsval" where
  "member x p = (if nullish x then Inl (cannot_read x p) else Inr (get_prop x p))"

text \<open>\<^verbatim>\<open>x?.p\<close>.\<close>

definition opt_member :: "jsval \<Rightarrow> string \<Rightarrow> jsval" where
  "opt_member x p = (if nullish x then JUndefined else get_prop x p)"

text \<open>\<^verbatim>\<open>x || y\<close>.\<close>

definition js_or :: "jsval \<Rightarrow> jsval \<Rightarrow> jsval" where
  "js_or x y = (if truthy x then x else y)"

text \<open>
  \<^verbatim>\<open>x.length\<close> and \<^verbatim>\<open>x[0]\<close> of a value that is not \<^verbatim>\<open>null\<close> or \<^verbatim>\<open>undefined\<close>.
  The length of a string is only compared with 0, and of the first element of a
  string only properties are read, which it does not have.
\<close>

fun js_length :: "jsval \<Rightarrow> jsval" where
  "js_length (JArr xs) = JNum (int (length xs))"
| "js_length (JStr s) = JNum (int (length s))"
| "js_length (JObj ps) = get_prop (JObj ps) ''length''"
| "js_length _ = JUndefined"

fun js_first :: "jsval \<Rightarrow> jsval" where
  "js_first (JArr xs) = (case xs of [] \<Rightarrow> JUndefined | x # _ \<Rightarrow> x)"
| "js_first (JStr s) = (case s of [] \<Rightarrow> JUndefined | c # _ \<Rightarrow> JStr [c])"
| "js_first (JObj ps) = get_prop (JObj ps) ''0''"
| "js_first _ = JUndefined"

text \<open>
  The values that \<^verbatim>\<open>for (const rec of records)\<close> goes through: the elements of an
  array, the characters of a string, a \<^verbatim>\<open>TypeError\<close> for every other value. A
  character of a string is a string of its own, without the properties that the
  loop body reads: the loop skips it (\<open>classify_string_row\<close> below).
\<close>

fun iterate :: "jsval \<Rightarrow> string + jsval list" where
  "iterate (JArr xs) = Inr xs"
| "iterate (JStr s) = Inr (map (\<lambda>c. JStr [c]) s)"
| "iterate _ = Inl ''records is not iterable''"

subsection \<open>Strings\<close>

text \<open>The lowering of the letters A to Z, used in the examples.\<close>

definition lower_char :: "char \<Rightarrow> char" where
  "lower_char c =
     (if (65::nat) \<le> of_char c \<and> of_char c \<le> (90::nat)
      then char_of (of_char c + (32::nat)) else c)"

definition ascii_lower :: "string \<Rightarrow> string" where
  "ascii_lower s = map lower_char s"

text \<open>\<^verbatim>\<open>s.includes(t)\<close>: \<open>t\<close> occurs in \<open>s\<close> as a contiguous substring.\<close>

fun includes_str :: "string \<Rightarrow> string \<Rightarrow> bool" where
  "includes_str [] t = (t = [])"
| "includes_str (c # cs) t = (prefix t (c # cs) \<or> includes_str cs t)"

text \<open>\<^verbatim>\<open>args.ci_name\<close> in a condition: supplied and not the empty string.\<close>

definition truthy_opt :: "string option \<Rightarrow> bool" where
  "truthy_opt x = (case x of None \<Rightarrow> False | Some v \<Rightarrow> v \<noteq> [])"

text \<open>An optional string inside a template literal.\<close>

definition tmpl :: "string option \<Rightarrow> string" where
  "tmpl x = (case x of None \<Rightarrow> ''undefined'' | Some v \<Rightarrow> v)"

text \<open>
  Line 205: \<^verbatim>\<open>args.type && !typeName.toLowerCase().includes(args.type.toLowerCase())\<close>
  is \<open>\<not> passes lc (arg_type a) typeName\<close>; an absent or empty filter lets
  everything pass.
\<close>

definition passes :: "(string \<Rightarrow> string) \<Rightarrow> string option \<Rightarrow> string \<Rightarrow> bool" where
  "passes lc flt text =
     (case flt of
        None \<Rightarrow> True
      | Some f \<Rightarrow> f = [] \<or> includes_str (lc text) (lc f))"

text \<open>
  Line 214: \<^verbatim>\<open>!args.class || otherClass.toLowerCase().includes(args.class.toLowerCase())\<close>.
  With a filter, \<^verbatim>\<open>otherClass.toLowerCase()\<close> is evaluated and raises a
  \<^verbatim>\<open>TypeError\<close> where the class is not a string.
\<close>

definition class_shown :: "(string \<Rightarrow> string) \<Rightarrow> string option \<Rightarrow> jsval \<Rightarrow> string + bool" where
  "class_shown lc flt otherClass =
     (case flt of
        None \<Rightarrow> Inr True
      | Some f \<Rightarrow>
          if f = [] then Inr True
          else (case otherClass of
                  JStr c \<Rightarrow> Inr (includes_str (lc c) (lc f))
                | JUndefined \<Rightarrow> Inl (cannot_read JUndefined ''toLowerCase'')
                | JNull \<Rightarrow> Inl (cannot_read JNull ''toLowerCase'')
                | _ \<Rightarrow> Inl ''otherClass.toLowerCase is not a function''))"

subsection \<open>Request, store and result\<close>

datatype direction = upstream | downstream | both

fun dir_str :: "direction \<Rightarrow> string" where
  "dir_str upstream = ''upstream''"
| "dir_str downstream = ''downstream''"
| "dir_str both = ''both''"

text \<open>The arguments as the tool receives them, and after the zod schema has
  filled in its defaults (\<^verbatim>\<open>direction\<close>: both, \<^verbatim>\<open>impact\<close>: false).\<close>

record raw_args =
  raw_ci_name :: "string option"
  raw_sys_id :: "string option"
  raw_depth :: "int option"
  raw_direction :: "direction option"
  raw_type :: "string option"
  raw_class :: "string option"
  raw_impact :: "bool option"

record args =
  arg_ci_name :: "string option"
  arg_sys_id :: "string option"
  arg_depth :: "int option"
  arg_direction :: direction
  arg_type :: "string option"
  arg_class :: "string option"
  arg_impact :: bool

definition schema_parse :: "raw_args \<Rightarrow> args" where
  "schema_parse r =
     \<lparr> arg_ci_name = raw_ci_name r, arg_sys_id = raw_sys_id r, arg_depth = raw_depth r,
       arg_direction = (case raw_direction r of None \<Rightarrow> both | Some d \<Rightarrow> d),
       arg_type = raw_type r, arg_class = raw_class r,
       arg_impact = (case raw_impact r of None \<Rightarrow> False | Some b \<Rightarrow> b) \<rparr>"

record config =
  relDepth :: int

datatype 'a reply = Threw string | Reply 'a

text \<open>
  The four requests of the handler, each answered with a body or an exception:
  \<open>get_ci\<close> is the point lookup of the root by \<^verbatim>\<open>args.sys_id\<close> (line 86),
  \<open>query_ci\<close> the lookup by \<^verbatim>\<open>args.ci_name\<close> (line 97), \<open>get_class\<close> the point
  lookup of \<^verbatim>\<open>getClass\<close> (line 120), \<open>query_rel\<close> the query of \<^verbatim>\<open>cmdb_rel_ci\<close>
  for the rows with the given id as parent or child (line 167).
\<close>

record sn_client =
  get_ci :: "string \<Rightarrow> jsval reply"
  query_ci :: "string \<Rightarrow> jsval reply"
  get_class :: "string \<Rightarrow> jsval reply"
  query_rel :: "jsval \<Rightarrow> jsval reply"

datatype call = GetCi string | QueryCi string | GetClass string | QueryRel jsval

record RelNode =
  r_name :: string
  r_class :: jsval
  r_type :: string
  r_direction :: direction
  r_sys_id :: string
  r_depth :: int

record root_node =
  root_name :: jsval
  root_class :: jsval
  root_sys_id :: jsval

record meta =
  meta_depth :: int
  meta_direction :: direction
  meta_total :: nat

record result =
  root :: root_node
  relationships :: "RelNode list"
  meta :: meta

subsection \<open>The traversal\<close>

text \<open>What the closure \<^verbatim>\<open>traverse\<close> captures and does not change, and the
  lowering function of the runtime.\<close>

record env =
  client :: sn_client
  args :: args
  maxDepth :: int
  direction :: direction
  toLowerCase :: "string \<Rightarrow> string"

record tstate =
  visited :: "jsval set"
  classCache :: "jsval \<rightharpoonup> jsval"
  allRels :: "RelNode list"
  calls :: "call list"

text \<open>How a call of \<^verbatim>\<open>traverse\<close> ends: it returns, or an exception leaves it.\<close>

datatype outcome = Done tstate | Raised string tstate

fun final :: "outcome \<Rightarrow> tstate" where
  "final (Done s) = s"
| "final (Raised m s) = s"

text \<open>
  Lines 117 to 131. Every exception of the lookup, also the \<^verbatim>\<open>TypeError\<close> of
  \<^verbatim>\<open>resp.result\<close> on a \<^verbatim>\<open>null\<close> body, is caught and stores \<^verbatim>\<open>"unknown"\<close>.
\<close>

definition getClass :: "env \<Rightarrow> string \<Rightarrow> tstate \<Rightarrow> jsval \<times> tstate" where
  "getClass e ident s =
     (case classCache s (JStr ident) of
        Some c \<Rightarrow> (c, s)
      | None \<Rightarrow>
          (let s' = s\<lparr>calls := calls s @ [GetClass ident]\<rparr>;
               cls = (case get_class (client e) ident of
                        Threw _ \<Rightarrow> JStr ''unknown''
                      | Reply resp \<Rightarrow>
                          (case member resp ''result'' of
                             Inl _ \<Rightarrow> JStr ''unknown''
                           | Inr r \<Rightarrow> js_or (opt_member r ''sys_class_name'') (JStr ''unknown'')))
           in (cls, s'\<lparr>classCache := (classCache s')(JStr ident \<mapsto> cls)\<rparr>)))"

text \<open>
  Lines 181 to 205 of the loop body: the row decoded from the point of view of
  \<open>currentId\<close>, \<open>None\<close> where the source says \<^verbatim>\<open>continue\<close>, or the
  \<^verbatim>\<open>TypeError\<close> of \<^verbatim>\<open>rec.parent\<close> on a row that is \<^verbatim>\<open>null\<close>. The result is
  \<open>(otherId, otherName, relDir, typeName)\<close>.
\<close>

definition classify :: "env \<Rightarrow> jsval \<Rightarrow> jsval \<Rightarrow> string + (string \<times> string \<times> direction \<times> string) option" where
  "classify e currentId rec =
     (case member rec ''parent'' of
        Inl te \<Rightarrow> Inl te
      | Inr rec_parent \<Rightarrow>
     (let rec_child = get_prop rec ''child'';
          rec_type = get_prop rec ''type'';
          parentId = extractValue rec_parent;
          childId = extractValue rec_child;
          parentName = extractDisplay rec_parent;
          childName = extractDisplay rec_child;
          typeName = (if extractDisplay rec_type = [] then ''Related to''
                      else extractDisplay rec_type);
          role = (if JStr parentId = currentId then Some (childId, childName, downstream)
                  else if JStr childId = currentId then Some (parentId, parentName, upstream)
                  else None)
      in case role of
           None \<Rightarrow> Inr None
         | Some (otherId, otherName, relDir) \<Rightarrow>
             if JStr otherId = currentId then Inr None
             else if direction e \<noteq> both \<and> relDir \<noteq> direction e then Inr None
             else if \<not> passes (toLowerCase e) (arg_type (args e)) typeName then Inr None
             else Inr (Some (otherId, otherName, relDir, typeName))))"

definition pairKey :: "string \<Rightarrow> direction \<Rightarrow> string" where
  "pairKey otherId relDir = otherId @ '':'' @ dir_str relDir"

text \<open>
  Lines 207 to 227: the rest of the loop body up to the recursive call. The
  result is \<open>Skip\<close> for \<^verbatim>\<open>continue\<close>, \<open>Raise\<close> for an exception, else the new
  \<open>seen\<close> set, the new state and the node to recurse into, if any.
\<close>

datatype step = Skip | Raise string tstate | Go "string set" tstate "string option"

definition row_step :: "env \<Rightarrow> jsval \<Rightarrow> int \<Rightarrow> jsval \<Rightarrow> string set \<Rightarrow> tstate \<Rightarrow> step" where
  "row_step e currentId currentDepth rec seen s =
     (case classify e currentId rec of
        Inl te \<Rightarrow> Raise te s
      | Inr None \<Rightarrow> Skip
      | Inr (Some (otherId, otherName, relDir, typeName)) \<Rightarrow>
          if pairKey otherId relDir \<in> seen then Skip
          else
            (let seen' = insert (pairKey otherId relDir) seen;
                 (otherClass, s1) = getClass e otherId s
             in case class_shown (toLowerCase e) (arg_class (args e)) otherClass of
                  Inl te \<Rightarrow> Raise te s1
                | Inr shown \<Rightarrow>
                    (let s2 = (if shown
                               then s1\<lparr>allRels := allRels s1 @
                                  [\<lparr> r_name = (if otherName = [] then otherId else otherName),
                                     r_class = otherClass, r_type = typeName,
                                     r_direction = relDir, r_sys_id = otherId,
                                     r_depth = currentDepth \<rparr>]\<rparr>
                               else s1)
                     in if currentDepth < maxDepth e \<and> JStr otherId \<notin> visited s2
                        then Go seen' (s2\<lparr>visited := insert (JStr otherId) (visited s2)\<rparr>)
                               (Some otherId)
                        else Go seen' s2 None)))"

lemma row_step_recurse_depth:
  "row_step e currentId currentDepth rec seen s = Go seen' s2 (Some otherId)
   \<Longrightarrow> currentDepth < maxDepth e"
  by (auto simp: row_step_def Let_def split: option.splits if_splits prod.splits sum.splits)

text \<open>
  Lines 162 to 231. The exception of the row request is caught (lines 166 to
  175); \<^verbatim>\<open>relResp.result\<close> on line 177 and the loop are outside the \<^verbatim>\<open>try\<close>.
\<close>

function traverse :: "env \<Rightarrow> jsval \<Rightarrow> int \<Rightarrow> tstate \<Rightarrow> outcome"
  and loop :: "env \<Rightarrow> jsval \<Rightarrow> int \<Rightarrow> jsval list \<Rightarrow> string set \<Rightarrow> tstate \<Rightarrow> outcome" where
  "traverse e currentId currentDepth s =
     (if currentDepth > maxDepth e then Done s
      else
        (let s0 = s\<lparr>calls := calls s @ [QueryRel currentId]\<rparr>
         in case query_rel (client e) currentId of
              Threw _ \<Rightarrow> Done s0
            | Reply relResp \<Rightarrow>
                (case member relResp ''result'' of
                   Inl te \<Rightarrow> Raised te s0
                 | Inr r \<Rightarrow>
                     (case iterate (js_or r (JArr [])) of
                        Inl te \<Rightarrow> Raised te s0
                      | Inr records \<Rightarrow> loop e currentId currentDepth records {} s0))))"
| "loop e currentId currentDepth [] seen s = Done s"
| "loop e currentId currentDepth (rec # recs) seen s =
     (case row_step e currentId currentDepth rec seen s of
        Skip \<Rightarrow> loop e currentId currentDepth recs seen s
      | Raise te s' \<Rightarrow> Raised te s'
      | Go seen' s2 None \<Rightarrow> loop e currentId currentDepth recs seen' s2
      | Go seen' s2 (Some otherId) \<Rightarrow>
          (case traverse e (JStr otherId) (currentDepth + 1) s2 of
             Raised te s3 \<Rightarrow> Raised te s3
           | Done s3 \<Rightarrow> loop e currentId currentDepth recs seen' s3))"
  by pat_completeness auto

termination
proof (relation "inv_image (less_than <*lex*> less_than)
    (\<lambda>x. case x of
       Inl (e, currentId, currentDepth, s) \<Rightarrow>
         (2 * nat (maxDepth e + 1 - currentDepth) + 1, 0)
     | Inr (e, currentId, currentDepth, recs, seen, s) \<Rightarrow>
         (2 * nat (maxDepth e + 1 - currentDepth), length recs))", goal_cases)
  case 1
  show ?case by (intro wf_inv_image wf_lex_prod wf_less_than)
next
  case 2
  then show ?case by simp
next
  case 3
  then show ?case by simp
next
  case 4
  then show ?case by simp
next
  case (5 e currentId currentDepth rec recs seen s seen' s2 x otherId)
  then have "currentDepth < maxDepth e"
    using row_step_recurse_depth by blast
  then have "nat (maxDepth e + 1 - currentDepth) = Suc (nat (maxDepth e - currentDepth))"
    by linarith
  then show ?case by simp
next
  case 6
  then show ?case by simp
qed

subsection \<open>The handler\<close>

definition err :: "string \<Rightarrow> string" where
  "err message = ''ERROR: '' @ message"

text \<open>Line 76 and lines 77 to 78.\<close>

definition effective_depth :: "args \<Rightarrow> config \<Rightarrow> int" where
  "effective_depth a cfg =
     min (max (case arg_depth a of None \<Rightarrow> relDepth cfg | Some d \<Rightarrow> d) 1) 5"

definition effective_direction :: "args \<Rightarrow> direction" where
  "effective_direction a = (if arg_impact a then upstream else arg_direction a)"

text \<open>
  Lines 85 to 110: the root as \<open>(rootId, rootName, rootClass)\<close>, or the text of the
  error result, with the requests sent. An exception of \<^verbatim>\<open>client.get\<close> and the
  \<^verbatim>\<open>TypeError\<close> of \<^verbatim>\<open>ciResp.result\<close> or of \<^verbatim>\<open>results[0].sys_id\<close> reach the outer
  \<^verbatim>\<open>catch\<close>. The name and the class of the root are kept as the store gave
  them: the class is \<^verbatim>\<open>undefined\<close> where the answer has none.
\<close>

definition resolve_root :: "args \<Rightarrow> sn_client \<Rightarrow> (string + jsval \<times> jsval \<times> jsval) \<times> call list" where
  "resolve_root a cl =
     (if truthy_opt (arg_sys_id a) then
        (case get_ci cl (tmpl (arg_sys_id a)) of
           Threw m \<Rightarrow> (Inl (err m), [GetCi (tmpl (arg_sys_id a))])
         | Reply ciResp \<Rightarrow>
             (case member ciResp ''result'' of
                Inl te \<Rightarrow> (Inl (err te), [GetCi (tmpl (arg_sys_id a))])
              | Inr r \<Rightarrow>
                  if \<not> truthy (opt_member r ''name'') then
                    (Inl (err (''CI not found with sys_id: '' @ tmpl (arg_sys_id a))),
                     [GetCi (tmpl (arg_sys_id a))])
                  else
                    (Inr (JStr (tmpl (arg_sys_id a)), get_prop r ''name'',
                          get_prop r ''sys_class_name''),
                     [GetCi (tmpl (arg_sys_id a))])))
      else
        (case query_ci cl (tmpl (arg_ci_name a)) of
           Threw m \<Rightarrow> (Inl (err m), [QueryCi (tmpl (arg_ci_name a))])
         | Reply ciResp \<Rightarrow>
             (case member ciResp ''result'' of
                Inl te \<Rightarrow> (Inl (err te), [QueryCi (tmpl (arg_ci_name a))])
              | Inr r \<Rightarrow>
                  (let results = js_or r (JArr [])
                   in if js_length results = JNum 0 then
                        (Inl (err (''CI not found: '' @ tmpl (arg_ci_name a))),
                         [QueryCi (tmpl (arg_ci_name a))])
                      else
                        (case member (js_first results) ''sys_id'' of
                           Inl te \<Rightarrow> (Inl (err te), [QueryCi (tmpl (arg_ci_name a))])
                         | Inr rid \<Rightarrow>
                             (Inr (rid, get_prop (js_first results) ''name'',
                                   get_prop (js_first results) ''sys_class_name''),
                              [QueryCi (tmpl (arg_ci_name a))]))))))"

text \<open>Lines 113 to 115.\<close>

definition init_state :: "jsval \<Rightarrow> jsval \<Rightarrow> call list \<Rightarrow> tstate" where
  "init_state rootId rootClass cs =
     \<lparr> visited = {rootId}, classCache = [rootId \<mapsto> rootClass], allRels = [], calls = cs \<rparr>"

definition mk_env :: "(string \<Rightarrow> string) \<Rightarrow> args \<Rightarrow> sn_client \<Rightarrow> config \<Rightarrow> env" where
  "mk_env lc a cl cfg =
     \<lparr> client = cl, args = a, maxDepth = effective_depth a cfg,
       direction = effective_direction a, toLowerCase = lc \<rparr>"

text \<open>The data the handler gives to \<^verbatim>\<open>ok\<close> (lines 235 to 239).\<close>

definition result_of :: "args \<Rightarrow> config \<Rightarrow> jsval \<Rightarrow> jsval \<Rightarrow> jsval \<Rightarrow> tstate \<Rightarrow> result" where
  "result_of a cfg rootId rootName rootClass s =
     \<lparr> root = \<lparr> root_name = rootName, root_class = rootClass, root_sys_id = rootId \<rparr>,
       relationships = allRels s,
       meta = \<lparr> meta_depth = effective_depth a cfg, meta_direction = effective_direction a,
                meta_total = length (allRels s) \<rparr> \<rparr>"

text \<open>
  The handler (lines 71 to 242), given the lowering function of the runtime:
  \<open>Inl\<close> is the text of \<^verbatim>\<open>err(...)\<close>, \<open>Inr\<close> the data given to \<^verbatim>\<open>ok(...)\<close>; the
  second component is the log of the requests sent. An exception that leaves
  \<^verbatim>\<open>traverse\<close> is caught on line 240.
\<close>

definition handler ::
  "(string \<Rightarrow> string) \<Rightarrow> args \<Rightarrow> sn_client \<Rightarrow> config \<Rightarrow> (string + result) \<times> call list" where
  "handler lc a cl cfg =
     (if \<not> truthy_opt (arg_ci_name a) \<and> \<not> truthy_opt (arg_sys_id a) then
        (Inl (err ''Either ci_name or sys_id is required''), [])
      else
        (case resolve_root a cl of
           (Inl m, cs) \<Rightarrow> (Inl m, cs)
         | (Inr (rootId, rootName, rootClass), cs) \<Rightarrow>
             (case traverse (mk_env lc a cl cfg) rootId 1 (init_state rootId rootClass cs) of
                Raised te s \<Rightarrow> (Inl (err te), calls s)
              | Done s \<Rightarrow> (Inr (result_of a cfg rootId rootName rootClass s), calls s))))"

subsection \<open>Stores for the examples\<close>

text \<open>
  A store built from a list of nodes \<open>(sys_id, name, class)\<close> and a list of
  relationship rows \<open>(parent, child, type)\<close>. It answers as the table API does:
  a body with the field \<open>result\<close>, an error for an item that does not exist, and
  with \<^verbatim>\<open>sysparm_display_value=all\<close> each reference field as a structure with
  a \<open>display_value\<close> and a \<open>value\<close>.
\<close>

definition body :: "jsval \<Rightarrow> jsval reply" where
  "body r = Reply (JObj [(''result'', r)])"

definition ci_json :: "string \<times> string \<times> string \<Rightarrow> jsval" where
  "ci_json n = (case n of (i, nm, c) \<Rightarrow>
     JObj [(''sys_id'', JStr i), (''name'', JStr nm), (''sys_class_name'', JStr c)])"

definition node_ref :: "(string \<times> string \<times> string) list \<Rightarrow> string \<Rightarrow> jsval" where
  "node_ref nodes i =
     JObj [(''display_value'', JStr (case map_of nodes i of Some (n, c) \<Rightarrow> n | None \<Rightarrow> [])),
           (''value'', JStr i)]"

definition rel_json :: "(string \<times> string \<times> string) list \<Rightarrow> string \<times> string \<times> string \<Rightarrow> jsval" where
  "rel_json nodes r = (case r of (p, c, t) \<Rightarrow>
     JObj [(''parent'', node_ref nodes p), (''child'', node_ref nodes c),
           (''type'', JObj [(''display_value'', JStr t), (''value'', JStr t)])])"

definition graph_client ::
  "(string \<times> string \<times> string) list \<Rightarrow> (string \<times> string \<times> string) list \<Rightarrow> sn_client" where
  "graph_client nodes edges =
     \<lparr> get_ci = (\<lambda>i. case map_of nodes i of
                  Some (n, c) \<Rightarrow> body (ci_json (i, n, c))
                | None \<Rightarrow> Threw ''No Record found (HTTP 404)''),
       query_ci = (\<lambda>n. body (JArr (map ci_json (filter (\<lambda>(i, n', c). n' = n) nodes)))),
       get_class = (\<lambda>i. case map_of nodes i of
                  Some (n, c) \<Rightarrow> body (JObj [(''sys_class_name'', JStr c)])
                | None \<Rightarrow> Threw ''No Record found (HTTP 404)''),
       query_rel = (\<lambda>i. body (JArr (map (rel_json nodes)
                    (filter (\<lambda>(p, c, t). JStr p = i \<or> JStr c = i) edges)))) \<rparr>"

definition request :: "string option \<Rightarrow> string option \<Rightarrow> int option \<Rightarrow> direction \<Rightarrow> args" where
  "request n i d dir =
     \<lparr> arg_ci_name = n, arg_sys_id = i, arg_depth = d, arg_direction = dir,
       arg_type = None, arg_class = None, arg_impact = False \<rparr>"

definition default_config :: config where
  "default_config = \<lparr> relDepth = 3 \<rparr>"

text \<open>The cycle A \<rightarrow> B \<rightarrow> C \<rightarrow> A.\<close>

definition cycle_client :: sn_client where
  "cycle_client = graph_client
     [(''A'', ''a'', ''Server''), (''B'', ''b'', ''Server''), (''C'', ''c'', ''Server'')]
     [(''A'', ''B'', ''Runs on''), (''B'', ''C'', ''Runs on''), (''C'', ''A'', ''Runs on'')]"

text \<open>The chain R \<rightarrow> B \<rightarrow> C, with B a switch and C a server.\<close>

definition chain_client :: sn_client where
  "chain_client = graph_client
     [(''R'', ''r'', ''Router''), (''B'', ''b'', ''Switch''), (''C'', ''c'', ''Server'')]
     [(''R'', ''B'', ''Connects to''), (''B'', ''C'', ''Connects to'')]"

text \<open>The same chain on a store whose answer to the lookup of the root has a
  name and no class.\<close>

definition classless_client :: sn_client where
  "classless_client =
     chain_client\<lparr>get_ci := (\<lambda>i. body (JObj [(''sys_id'', JStr i), (''name'', JStr ''r'')]))\<rparr>"

text \<open>A store with one item and no relationships.\<close>

definition lone_client :: sn_client where
  "lone_client = graph_client [(''id1'', ''web01'', ''Server'')] []"



text \<open>A store whose relationship row names its endpoints by bare sys_ids.\<close>

definition bare_client :: sn_client where
  "bare_client =
     \<lparr> get_ci = (\<lambda>i. body (ci_json (i, ''web01'', ''Server''))),
       query_ci = (\<lambda>n. body (JArr [])),
       get_class = (\<lambda>i. body (JObj [(''sys_class_name'', JStr ''Database'')])),
       query_rel = (\<lambda>i. body (JArr
          [JObj [(''parent'', JStr ''0123456789abcdef0123456789abcdef''),
                 (''child'', JStr ''aaaaaaaaaaaaaaaaaaaaaaaaaaaaaaaa''),
                 (''type'', JStr ''Contains'')]])) \<rparr>"

text \<open>A store with two parallel rows from R to B, and C reachable from R and from B.\<close>

definition parallel_client :: sn_client where
  "parallel_client = graph_client
     [(''R'', ''r'', ''Router''), (''B'', ''b'', ''Switch''), (''C'', ''c'', ''Server'')]
     [(''R'', ''B'', ''Runs on''), (''R'', ''B'', ''Depends on''), (''B'', ''C'', ''Contains''),
      (''R'', ''C'', ''Contains'')]"

text \<open>A parent P with the children R and S.\<close>

definition family_client :: sn_client where
  "family_client = graph_client
     [(''R'', ''r'', ''Server''), (''P'', ''p'', ''Cluster''), (''S'', ''s'', ''Server'')]
     [(''P'', ''R'', ''Contains''), (''P'', ''S'', ''Contains'')]"

lemmas eval_simps = handler_def request_def default_config_def graph_client_def node_ref_def
  body_def ci_json_def rel_json_def result_of_def
  truthy_opt_def tmpl_def err_def resolve_root_def mk_env_def init_state_def effective_depth_def
  effective_direction_def traverse.simps row_step_def classify_def getClass_def pairKey_def
  extractValue.simps extractDisplay.simps passes_def class_shown_def hex32_def Let_def
  member_def opt_member_def js_or_def cannot_read_def ascii_lower_def lower_char_def

subsection \<open>Notions used in the statements\<close>

text \<open>What \<^verbatim>\<open>getClass\<close> stores for an id that is not in the cache.\<close>

definition lookup_class :: "sn_client \<Rightarrow> string \<Rightarrow> jsval" where
  "lookup_class cl ident =
     (case get_class cl ident of
        Threw _ \<Rightarrow> JStr ''unknown''
      | Reply resp \<Rightarrow>
          (case member resp ''result'' of
             Inl _ \<Rightarrow> JStr ''unknown''
           | Inr r \<Rightarrow> js_or (opt_member r ''sys_class_name'') (JStr ''unknown'')))"

text \<open>The edge pushed for a decoded row at a depth, given the class.\<close>

definition mk_edge :: "int \<Rightarrow> jsval \<Rightarrow> string \<times> string \<times> direction \<times> string \<Rightarrow> RelNode" where
  "mk_edge d cls x =
     (case x of (otherId, otherName, relDir, typeName) \<Rightarrow>
        \<lparr> r_name = (if otherName = [] then otherId else otherName),
          r_class = cls, r_type = typeName, r_direction = relDir, r_sys_id = otherId,
          r_depth = d \<rparr>)"

text \<open>The class \<^verbatim>\<open>getClass\<close> returns for an id in a state: the cached one, or else
  the looked up one.\<close>

definition cached_class :: "env \<Rightarrow> tstate \<Rightarrow> string \<Rightarrow> jsval" where
  "cached_class e s i =
     (case classCache s (JStr i) of Some c \<Rightarrow> c | None \<Rightarrow> lookup_class (client e) i)"

text \<open>The ids whose relationship rows were requested, and the ids whose class was
  requested, in the order of the requests.\<close>

definition fetched :: "call list \<Rightarrow> jsval list" where
  "fetched cs = concat (map (\<lambda>c. case c of QueryRel i \<Rightarrow> [i] | _ \<Rightarrow> []) cs)"

definition looked_up :: "call list \<Rightarrow> string list" where
  "looked_up cs = concat (map (\<lambda>c. case c of GetClass i \<Rightarrow> [i] | _ \<Rightarrow> []) cs)"

text \<open>Rows were requested for distinct, visited ids only; classes were looked up for
  distinct, cached ids only.\<close>

definition fetch_inv :: "tstate \<Rightarrow> bool" where
  "fetch_inv s \<longleftrightarrow> distinct (fetched (calls s)) \<and> set (fetched (calls s)) \<subseteq> visited s"


text \<open>What the handler returns for the outcome of the traversal (lines 235 to 241).\<close>

definition answer ::
  "args \<Rightarrow> config \<Rightarrow> jsval \<Rightarrow> jsval \<Rightarrow> jsval \<Rightarrow> outcome \<Rightarrow> (string + result) \<times> call list" where
  "answer a cfg rootId rootName rootClass out =
     (case out of
        Raised te s \<Rightarrow> (Inl (err te), calls s)
      | Done s \<Rightarrow> (Inr (result_of a cfg rootId rootName rootClass s), calls s))"



text \<open>
  What line 177 and the head of the loop make of the body of a row answer: the
  rows, or the text of the \<^verbatim>\<open>TypeError\<close>.
\<close>

definition records_of :: "jsval \<Rightarrow> string + jsval list" where
  "records_of relResp =
     (case member relResp ''result'' of
        Inl te \<Rightarrow> Inl te
      | Inr r \<Rightarrow> iterate (js_or r (JArr [])))"

text \<open>The rows the loop goes through for a node: none when the request fails or
  its answer has no rows to go through.\<close>

definition rows_of :: "sn_client \<Rightarrow> jsval \<Rightarrow> jsval list" where
  "rows_of cl i =
     (case query_rel cl i of
        Threw m \<Rightarrow> []
      | Reply relResp \<Rightarrow> (case records_of relResp of Inl te \<Rightarrow> [] | Inr recs \<Rightarrow> recs))"


text \<open>
  The decoded rows that one expansion records: the rows of the loop that pass
  \<open>classify\<close> and whose key is not yet in \<open>seen\<close>, in order, up to a row that
  raises an exception.
\<close>

fun accepted :: "env \<Rightarrow> jsval \<Rightarrow> jsval list \<Rightarrow> string set \<Rightarrow> (string \<times> string \<times> direction \<times> string) list" where
  "accepted e cid [] seen = []"
| "accepted e cid (r # rs) seen =
     (case classify e cid r of
        Inl te \<Rightarrow> []
      | Inr None \<Rightarrow> accepted e cid rs seen
      | Inr (Some (oid, nm, dir, ty)) \<Rightarrow>
          if pairKey oid dir \<in> seen then accepted e cid rs seen
          else (oid, nm, dir, ty) # accepted e cid rs (insert (pairKey oid dir) seen))"

text \<open>The edges pushed for a list of decoded rows, given the class of each id:
  those for which line 214 is true.\<close>

definition shown :: "env \<Rightarrow> (string \<Rightarrow> jsval) \<Rightarrow> int \<Rightarrow> (string \<times> string \<times> direction \<times> string) list \<Rightarrow> RelNode list" where
  "shown e K d ts =
     map (\<lambda>t. mk_edge d (K (fst t)) t)
       (filter (\<lambda>t. class_shown (toLowerCase e) (arg_class (args e)) (K (fst t)) = Inr True) ts)"

text \<open>An edge that line 214 lets through for a class filter, and a state and a
  result narrowed to these edges.\<close>

definition displayed :: "(string \<Rightarrow> string) \<Rightarrow> string option \<Rightarrow> RelNode \<Rightarrow> bool" where
  "displayed lc flt x \<longleftrightarrow> class_shown lc flt (r_class x) = Inr True"

definition narrow :: "(string \<Rightarrow> string) \<Rightarrow> string option \<Rightarrow> tstate \<Rightarrow> tstate" where
  "narrow lc flt s = s\<lparr>allRels := filter (displayed lc flt) (allRels s)\<rparr>"

definition narrow_result :: "(string \<Rightarrow> string) \<Rightarrow> string option \<Rightarrow> result \<Rightarrow> result" where
  "narrow_result lc flt res =
     res\<lparr>relationships := filter (displayed lc flt) (relationships res),
         meta := (meta res)\<lparr>meta_total := length (filter (displayed lc flt) (relationships res))\<rparr>\<rparr>"

text \<open>The edges a call has added to the result list.\<close>

definition new_edges :: "tstate \<Rightarrow> tstate \<Rightarrow> RelNode list" where
  "new_edges s s' = drop (length (allRels s)) (allRels s')"

text \<open>The key under which a decoded row is recorded in \<open>seen\<close>.\<close>

definition key_of :: "string \<times> string \<times> direction \<times> string \<Rightarrow> string" where
  "key_of t = (case t of (oid, nm, dir, ty) \<Rightarrow> pairKey oid dir)"

text \<open>The edges of a handler result (none for an error), and those found while
  expanding the root.\<close>

definition edges_of :: "(string + result) \<times> call list \<Rightarrow> RelNode list" where
  "edges_of h = (case fst h of Inl m \<Rightarrow> [] | Inr res \<Rightarrow> relationships res)"

definition depth1 :: "(string + result) \<times> call list \<Rightarrow> RelNode list" where
  "depth1 h = filter (\<lambda>x. r_depth x = 1) (edges_of h)"

declare extractValue.simps [simp del] extractDisplay.simps [simp del]
  traverse.simps [simp del]

section \<open>Reference Resolver\<close>

lemma split_not_Nil: "split c xs \<noteq> []"
  by (induction xs) auto

lemma split_no_sep: "c \<notin> set xs \<Longrightarrow> split c xs = [xs]"
  by (induction xs) auto

lemma split_sep_tl: "c \<in> set xs \<Longrightarrow> tl (split c xs) \<noteq> []"
  by (induction xs) (auto simp: split_not_Nil)

lemma last_split_suffix:
  "\<exists>pre. xs = pre @ last (split c xs) \<and> (pre = [] \<or> last pre = c)
         \<and> c \<notin> set (last (split c xs))"
proof (induction xs)
  case Nil
  show ?case by simp
next
  case (Cons x xs)
  then obtain pre where pre: "xs = pre @ last (split c xs)" "pre = [] \<or> last pre = c"
    "c \<notin> set (last (split c xs))" by blast
  show ?case
  proof (cases "x = c")
    case True
    have "x # xs = (x # pre) @ last (split c (x # xs))"
      using pre(1) True split_not_Nil [of c xs] by simp
    moreover have "last (x # pre) = c" using pre(2) True by auto
    moreover have "c \<notin> set (last (split c (x # xs)))"
      using pre(3) True split_not_Nil [of c xs] by simp
    ultimately show ?thesis by blast
  next
    case False
    show ?thesis
    proof (cases "c \<in> set xs")
      case True
      then have lx: "last (split c (x # xs)) = last (split c xs)"
        using False split_sep_tl [of c xs] by (simp add: last_tl)
      have "pre \<noteq> []" using True pre(1,3) by auto
      then have "last (x # pre) = c" using pre(2) by simp
      moreover have "x # xs = (x # pre) @ last (split c (x # xs))" using pre(1) lx by simp
      moreover have "c \<notin> set (last (split c (x # xs)))" using lx pre(3) by simp
      ultimately show ?thesis by blast
    next
      case nosep: False
      then have "split c (x # xs) = [x # xs]" using False split_no_sep [of c "x # xs"] by simp
      then have "x # xs = [] @ last (split c (x # xs))" "c \<notin> set (last (split c (x # xs)))"
        using nosep False by simp_all
      then show ?thesis by blast
    qed
  qed
qed

text \<open>
  C6. \<open>extractValue\<close> returns a bare string as it is, the \<open>value\<close> of a structure
  that has one (a non-empty string), and for a structure with a \<open>link\<close> and no such
  \<open>value\<close> the part of the link after its last slash; it returns the empty string
  for every other field. \<open>extractDisplay\<close> returns the \<open>display_value\<close> of a
  structure that has one, and a bare string unless it consists of exactly 32
  characters among a to f and 0 to 9, where it returns the empty string. On
  \<open>{value: "id1"}\<close>, \<open>{link: "https://x/y/id2"}\<close>, \<open>"id3"\<close> and 32 times \<open>a\<close> the
  ids are \<open>id1\<close>, \<open>id2\<close>, \<open>id3\<close> and the 32 letters, and the display name of the
  last is empty.
\<close>

theorem reference_resolver_shapes:
  "extractValue (JStr s) = s
   \<and> (map_of ps ''value'' = Some (JStr v) \<and> v \<noteq> [] \<longrightarrow> extractValue (JObj ps) = v)
   \<and> (truthy_string (get_prop (JObj ps) ''value'') = None
        \<and> map_of ps ''link'' = Some (JStr l) \<and> l \<noteq> [] \<longrightarrow>
        (\<exists>pre. l = pre @ extractValue (JObj ps) \<and> (pre = [] \<or> last pre = CHR ''/'')
               \<and> CHR ''/'' \<notin> set (extractValue (JObj ps))))
   \<and> ((\<forall>s'. field \<noteq> JStr s')
        \<and> (\<forall>ps'. field = JObj ps' \<longrightarrow>
              truthy_string (get_prop field ''value'') = None
              \<and> truthy_string (get_prop field ''link'') = None)
        \<longrightarrow> extractValue field = [])
   \<and> (map_of ps ''display_value'' = Some (JStr dv) \<and> dv \<noteq> [] \<longrightarrow> extractDisplay (JObj ps) = dv)
   \<and> extractDisplay (JStr s) = (if hex32 s then [] else s)
   \<and> (hex32 s \<longleftrightarrow> length s = 32 \<and> set s \<subseteq> set ''abcdef0123456789'')
   \<and> extractValue (JObj [(''value'', JStr ''id1'')]) = ''id1''
   \<and> extractValue (JObj [(''link'', JStr ''https://x/y/id2'')]) = ''id2''
   \<and> extractValue (JStr ''id3'') = ''id3''
   \<and> extractValue (JStr (replicate 32 CHR ''a'')) = replicate 32 CHR ''a''
   \<and> extractDisplay (JStr (replicate 32 CHR ''a'')) = []
   \<and> extractDisplay (JStr ''id3'') = ''id3''"
proof -
  have a: "extractValue (JStr s) = s" by (simp add: extractValue.simps)
  have b: "map_of ps ''value'' = Some (JStr v) \<and> v \<noteq> [] \<longrightarrow> extractValue (JObj ps) = v"
    by (simp add: extractValue.simps)
  have c: "truthy_string (get_prop (JObj ps) ''value'') = None
        \<and> map_of ps ''link'' = Some (JStr l) \<and> l \<noteq> [] \<longrightarrow>
        (\<exists>pre. l = pre @ extractValue (JObj ps) \<and> (pre = [] \<or> last pre = CHR ''/'')
               \<and> CHR ''/'' \<notin> set (extractValue (JObj ps)))"
    using last_split_suffix [of l "CHR ''/''"] by (simp add: extractValue.simps)
  have d: "(\<forall>s'. field \<noteq> JStr s')
        \<and> (\<forall>ps'. field = JObj ps' \<longrightarrow>
              truthy_string (get_prop field ''value'') = None
              \<and> truthy_string (get_prop field ''link'') = None)
        \<longrightarrow> extractValue field = []"
    by (cases field) (auto simp: extractValue.simps)
  have e: "map_of ps ''display_value'' = Some (JStr dv) \<and> dv \<noteq> [] \<longrightarrow> extractDisplay (JObj ps) = dv"
    by (simp add: extractDisplay.simps)
  have f: "extractDisplay (JStr s) = (if hex32 s then [] else s)"
    by (simp add: extractDisplay.simps)
  have g: "hex32 s \<longleftrightarrow> length s = 32 \<and> set s \<subseteq> set ''abcdef0123456789''"
    unfolding hex32_def list_all_iff by blast
  have h: "extractValue (JObj [(''value'', JStr ''id1'')]) = ''id1''"
    by (simp add: extractValue.simps)
  have i: "extractValue (JObj [(''link'', JStr ''https://x/y/id2'')]) = ''id2''"
    by (simp add: extractValue.simps)
  have j: "extractValue (JStr ''id3'') = ''id3''"
    by (simp add: extractValue.simps)
  have k: "extractValue (JStr (replicate 32 CHR ''a'')) = replicate 32 CHR ''a''"
    by (simp add: extractValue.simps)
  have l: "extractDisplay (JStr (replicate 32 CHR ''a'')) = []"
    by (simp add: extractDisplay.simps hex32_def list_all_iff)
  have m: "extractDisplay (JStr ''id3'') = ''id3''" by (simp add: extractDisplay.simps hex32_def)
  show ?thesis using a b c d e f g h i j k l m by blast
qed

theorem reference_resolver_shapes_witness:
  "map_of [(''value'', JStr ''id1''), (''link'', JStr ''https://x/y/id2'')] ''value'' = Some (JStr ''id1'')
   \<and> extractValue (JObj [(''value'', JStr ''id1''), (''link'', JStr ''https://x/y/id2'')]) = ''id1''
   \<and> truthy_string (get_prop (JObj [(''link'', JStr ''a/b'')]) ''value'') = None
   \<and> (\<exists>pre. ''a/b'' = pre @ extractValue (JObj [(''link'', JStr ''a/b'')]))
   \<and> extractValue (JNum 7) = []
   \<and> extractDisplay (JObj [(''display_value'', JStr ''web01'')]) = ''web01''"
  using reference_resolver_shapes [of "''''" "[(''value'', JStr ''id1''), (''link'', JStr ''https://x/y/id2'')]" "''id1''" "''''" "JNum 7" "''''"]
    reference_resolver_shapes [of "''''" "[(''link'', JStr ''a/b'')]" "''''" "''a/b''" "JNum 7" "''''"]
    reference_resolver_shapes [of "''''" "[(''display_value'', JStr ''web01'')]" "''''" "''''" "JNum 7" "''web01''"]
  by (simp add: extractValue.simps extractDisplay.simps)

section \<open>The traversal: unfolding, induction, congruence\<close>

text \<open>Every argument is in the domain of the recursion: no call of \<open>traverse\<close> or of the
  loop runs forever.\<close>

lemma traverse_loop_total: "All traverse_loop_dom"
proof (relation "inv_image (less_than <*lex*> less_than)
    (\<lambda>x. case x of
       Inl (e, currentId, currentDepth, s) \<Rightarrow>
         (2 * nat (maxDepth e + 1 - currentDepth) + 1, 0)
     | Inr (e, currentId, currentDepth, recs, seen, s) \<Rightarrow>
         (2 * nat (maxDepth e + 1 - currentDepth), length recs))", goal_cases)
  case 1
  show ?case by (intro wf_inv_image wf_lex_prod wf_less_than)
next
  case 2
  then show ?case by simp
next
  case 3
  then show ?case by simp
next
  case 4
  then show ?case by simp
next
  case (5 e currentId currentDepth rec recs seen s seen' s2 x otherId)
  then have "currentDepth < maxDepth e"
    using row_step_recurse_depth by blast
  then have "nat (maxDepth e + 1 - currentDepth) = Suc (nat (maxDepth e - currentDepth))"
    by linarith
  then show ?case by simp
next
  case 6
  then show ?case by simp
qed

lemma traverse_terminates: "traverse_loop_dom (Inl (e, cid, d, s))"
  using traverse_loop_total by simp

lemma traverse_too_deep: "maxDepth e < d \<Longrightarrow> traverse e cid d s = Done s"
  by (simp add: traverse.simps)

lemma traverse_threw:
  "\<not> maxDepth e < d \<Longrightarrow> query_rel (client e) cid = Threw m \<Longrightarrow>
   traverse e cid d s = Done (s\<lparr>calls := calls s @ [QueryRel cid]\<rparr>)"
  by (simp add: traverse.simps)

lemma traverse_bad:
  "\<not> maxDepth e < d \<Longrightarrow> query_rel (client e) cid = Reply b \<Longrightarrow> records_of b = Inl te \<Longrightarrow>
   traverse e cid d s = Raised te (s\<lparr>calls := calls s @ [QueryRel cid]\<rparr>)"
  by (simp add: traverse.simps records_of_def split: sum.splits)

lemma traverse_rows:
  "\<not> maxDepth e < d \<Longrightarrow> query_rel (client e) cid = Reply b \<Longrightarrow> records_of b = Inr recs \<Longrightarrow>
   traverse e cid d s = loop e cid d recs {} (s\<lparr>calls := calls s @ [QueryRel cid]\<rparr>)"
  by (simp add: traverse.simps records_of_def split: sum.splits)

lemma loop_skip:
  "row_step e cid d r seen s = Skip \<Longrightarrow> loop e cid d (r # rs) seen s = loop e cid d rs seen s"
  by simp

lemma loop_raise:
  "row_step e cid d r seen s = Raise te s' \<Longrightarrow> loop e cid d (r # rs) seen s = Raised te s'"
  by simp

lemma loop_stay:
  "row_step e cid d r seen s = Go seen' s2 None \<Longrightarrow>
   loop e cid d (r # rs) seen s = loop e cid d rs seen' s2"
  by simp

lemma loop_recurse:
  "row_step e cid d r seen s = Go seen' s2 (Some oid) \<Longrightarrow>
   loop e cid d (r # rs) seen s =
     (case traverse e (JStr oid) (d + 1) s2 of
        Raised te s3 \<Rightarrow> Raised te s3
      | Done s3 \<Rightarrow> loop e cid d rs seen' s3)"
  by simp

lemma loop_recurse_raised:
  "row_step e cid d r seen s = Go seen' s2 (Some oid) \<Longrightarrow>
   traverse e (JStr oid) (d + 1) s2 = Raised te s3 \<Longrightarrow>
   loop e cid d (r # rs) seen s = Raised te s3"
  by simp

lemma loop_recurse_done:
  "row_step e cid d r seen s = Go seen' s2 (Some oid) \<Longrightarrow>
   traverse e (JStr oid) (d + 1) s2 = Done s3 \<Longrightarrow>
   loop e cid d (r # rs) seen s = loop e cid d rs seen' s3"
  by simp

lemma traverse_loop_induct [case_names too_deep threw bad rows Nil skip raise stay recurse]:
  assumes "\<And>cid d s. maxDepth e < d \<Longrightarrow> P cid d s"
    and "\<And>cid d s m. \<not> maxDepth e < d \<Longrightarrow> query_rel (client e) cid = Threw m \<Longrightarrow> P cid d s"
    and "\<And>cid d s b te. \<not> maxDepth e < d \<Longrightarrow> query_rel (client e) cid = Reply b \<Longrightarrow>
           records_of b = Inl te \<Longrightarrow> P cid d s"
    and "\<And>cid d s b recs. \<not> maxDepth e < d \<Longrightarrow> query_rel (client e) cid = Reply b \<Longrightarrow>
           records_of b = Inr recs \<Longrightarrow>
           Q cid d recs {} (s\<lparr>calls := calls s @ [QueryRel cid]\<rparr>) \<Longrightarrow> P cid d s"
    and "\<And>cid d seen s. Q cid d [] seen s"
    and "\<And>cid d r rs seen s. row_step e cid d r seen s = Skip \<Longrightarrow>
           Q cid d rs seen s \<Longrightarrow> Q cid d (r # rs) seen s"
    and "\<And>cid d r rs seen s te s'. row_step e cid d r seen s = Raise te s' \<Longrightarrow>
           Q cid d (r # rs) seen s"
    and "\<And>cid d r rs seen s seen' s2. row_step e cid d r seen s = Go seen' s2 None \<Longrightarrow>
           Q cid d rs seen' s2 \<Longrightarrow> Q cid d (r # rs) seen s"
    and "\<And>cid d r rs seen s seen' s2 oid.
           row_step e cid d r seen s = Go seen' s2 (Some oid) \<Longrightarrow>
           P (JStr oid) (d + 1) s2 \<Longrightarrow>
           (\<And>s3. traverse e (JStr oid) (d + 1) s2 = Done s3 \<Longrightarrow> Q cid d rs seen' s3) \<Longrightarrow>
           Q cid d (r # rs) seen s"
  shows "P cid d s" and "Q cid d recs seen s"
proof -
  have "(e' = e \<longrightarrow> P cid d s)" and "(e'' = e \<longrightarrow> Q cid d recs seen s)" for e' e''
  proof (induction e' cid d s and e'' cid d recs seen s rule: traverse_loop.induct)
    case (1 e' currentId currentDepth s)
    show ?case
    proof
      assume e: "e' = e"
      show "P currentId currentDepth s"
      proof (cases "maxDepth e < currentDepth")
        case True
        then show ?thesis by (rule assms(1))
      next
        case False
        show ?thesis
        proof (cases "query_rel (client e) currentId")
          case (Threw m)
          with False show ?thesis by (rule assms(2))
        next
          case (Reply b)
          show ?thesis
          proof (cases "records_of b")
            case (Inl te)
            with False Reply show ?thesis by (rule assms(3))
          next
            case (Inr recs)
            then obtain r where r: "member b ''result'' = Inr r"
              "iterate (js_or r (JArr [])) = Inr recs"
              by (auto simp: records_of_def split: sum.splits)
            have "Q currentId currentDepth recs {} (s\<lparr>calls := calls s @ [QueryRel currentId]\<rparr>)"
              using 1 [OF _ refl, of b r recs] False Reply e r by simp
            with False Reply Inr show ?thesis by (rule assms(4))
          qed
        qed
      qed
    qed
  next
    case (2 e'' currentId currentDepth seen s)
    show ?case by (simp add: assms(5))
  next
    case (3 e'' currentId currentDepth rec recs seen s)
    show ?case
    proof
      assume e: "e'' = e"
      show "Q currentId currentDepth (rec # recs) seen s"
      proof (cases "row_step e currentId currentDepth rec seen s")
        case Skip
        then show ?thesis using 3(1) e assms(6) by simp
      next
        case (Raise te s')
        then show ?thesis by (rule assms(7))
      next
        case (Go seen' s2 nxt)
        show ?thesis
        proof (cases nxt)
          case None
          have "Q currentId currentDepth recs seen' s2"
            using 3(2) [of seen' s2 nxt] Go None e by simp
          then show ?thesis using assms(8) Go None by simp
        next
          case (Some oid)
          have rs: "row_step e currentId currentDepth rec seen s = Go seen' s2 (Some oid)"
            using Go Some by simp
          have p: "P (JStr oid) (currentDepth + 1) s2"
            using 3(3) [of seen' s2 nxt oid] Go Some e by simp
          have q: "Q currentId currentDepth recs seen' s3"
            if "traverse e (JStr oid) (currentDepth + 1) s2 = Done s3" for s3
            using 3(4) [of seen' s2 nxt oid s3] Go Some e that by simp
          show ?thesis using rs p q by (rule assms(9))
        qed
      qed
    qed
  qed
  then show "P cid d s" and "Q cid d recs seen s" by simp_all
qed

lemma classify_cong:
  assumes "direction e' = direction e" "arg_type (args e') = arg_type (args e)"
    "toLowerCase e' = toLowerCase e"
  shows "classify e' cid r = classify e cid r"
  unfolding classify_def by (simp only: assms)

lemma getClass_cong:
  assumes "get_class (client e') = get_class (client e)"
  shows "getClass e' i s = getClass e i s"
  unfolding getClass_def by (simp only: assms)

lemma row_step_cong:
  assumes "direction e' = direction e" "arg_type (args e') = arg_type (args e)"
    "toLowerCase e' = toLowerCase e"
    "arg_class (args e') = arg_class (args e)" "get_class (client e') = get_class (client e)"
    "maxDepth e' = maxDepth e"
  shows "row_step e' cid d r seen s = row_step e cid d r seen s"
  unfolding row_step_def
  by (simp only: assms classify_cong [OF assms(1,2,3)] getClass_cong [OF assms(5)])

lemma traverse_env_cong:
  assumes "direction e' = direction e" "arg_type (args e') = arg_type (args e)"
    "toLowerCase e' = toLowerCase e"
    "arg_class (args e') = arg_class (args e)" "get_class (client e') = get_class (client e)"
    "maxDepth e' = maxDepth e" "query_rel (client e') = query_rel (client e)"
  shows "traverse e' cid d s = traverse e cid d s"
    and "loop e' cid d recs seen s = loop e cid d recs seen s"
proof (induction cid d s and cid d recs seen s rule: traverse_loop_induct [where e = e])
  case (too_deep cid d s)
  then show ?case using assms(6) by (simp add: traverse_too_deep)
next
  case (threw cid d s m)
  then show ?case using assms(6,7) by (simp add: traverse_threw)
next
  case (bad cid d s b te)
  then show ?case using assms(6,7) by (simp add: traverse_bad)
next
  case (rows cid d s b recs)
  then show ?case using assms(6,7) by (simp add: traverse_rows)
next
  case (Nil cid d seen s)
  show ?case by simp
next
  case (skip cid d r rs seen s)
  then show ?case using row_step_cong [OF assms(1-6)] by (simp add: loop_skip)
next
  case (raise cid d r rs seen s te s')
  then show ?case using row_step_cong [OF assms(1-6)] by (simp add: loop_raise)
next
  case (stay cid d r rs seen s seen' s2)
  then show ?case using row_step_cong [OF assms(1-6)] by (simp add: loop_stay)
next
  case (recurse cid d r rs seen s seen' s2 oid)
  have rs: "row_step e' cid d r seen s = Go seen' s2 (Some oid)"
    using recurse(1) row_step_cong [OF assms(1-6)] by simp
  show ?case
  proof (cases "traverse e (JStr oid) (d + 1) s2")
    case (Done s3)
    then show ?thesis using recurse rs by (simp add: loop_recurse_done)
  next
    case (Raised te s3)
    then show ?thesis using recurse rs by (simp add: loop_recurse_raised)
  qed
qed

lemma resolve_root_cong:
  assumes "arg_ci_name a' = arg_ci_name a" "arg_sys_id a' = arg_sys_id a"
  shows "resolve_root a' cl = resolve_root a cl"
  unfolding resolve_root_def by (simp only: assms)

lemma handler_args_cong:
  assumes "arg_ci_name a' = arg_ci_name a \<or> truthy_opt (arg_sys_id a)
            \<and> (truthy_opt (arg_ci_name a) \<or> truthy_opt (arg_ci_name a') = truthy_opt (arg_ci_name a))"
    "arg_sys_id a' = arg_sys_id a"
    "effective_depth a' cfg = effective_depth a cfg"
    "effective_direction a' = effective_direction a"
    "arg_type a' = arg_type a" "arg_class a' = arg_class a"
  shows "handler lc a' cl cfg = handler lc a cl cfg"
proof -
  have rr: "resolve_root a' cl = resolve_root a cl"
  proof (cases "truthy_opt (arg_sys_id a)")
    case True
    then show ?thesis unfolding resolve_root_def by (simp only: assms(2) if_True)
  next
    case False
    then have "arg_ci_name a' = arg_ci_name a" using assms(1) by simp
    then show ?thesis unfolding resolve_root_def by (simp only: assms(2))
  qed
  have tr: "traverse (mk_env lc a' cl cfg) i 1 s = traverse (mk_env lc a cl cfg) i 1 s" for i s
    by (rule traverse_env_cong) (simp_all add: mk_env_def assms)
  have ro: "result_of a' cfg = result_of a cfg"
    by (simp add: result_of_def fun_eq_iff assms)
  have g: "(\<not> truthy_opt (arg_ci_name a') \<and> \<not> truthy_opt (arg_sys_id a))
         = (\<not> truthy_opt (arg_ci_name a) \<and> \<not> truthy_opt (arg_sys_id a))"
    using assms(1,2) by auto
  show ?thesis
    unfolding handler_def by (simp only: rr tr ro assms(2-) g)
qed

section \<open>Depth and direction of a request\<close>


section \<open>One row of the loop\<close>

lemma getClass_fst: "fst (getClass e i s) = cached_class e s i"
  by (simp add: getClass_def cached_class_def lookup_class_def Let_def
      split: option.splits reply.splits sum.splits)

lemma getClass_snd:
  "visited (snd (getClass e i s)) = visited s"
  "allRels (snd (getClass e i s)) = allRels s"
  "classCache (snd (getClass e i s)) = (classCache s)(JStr i \<mapsto> cached_class e s i)"
  "calls (snd (getClass e i s)) = calls s @ (if classCache s (JStr i) = None then [GetClass i] else [])"
  by (auto simp add: getClass_def cached_class_def lookup_class_def Let_def
      split: option.splits reply.splits sum.splits)

lemma row_step_Skip_iff:
  "row_step e cid d r seen s = Skip \<longleftrightarrow>
     (case classify e cid r of
        Inl te \<Rightarrow> False
      | Inr None \<Rightarrow> True
      | Inr (Some (oid, nm, dir, ty)) \<Rightarrow> pairKey oid dir \<in> seen)"
  by (simp add: row_step_def Let_def split: option.splits prod.splits sum.splits)

lemma row_step_classified:
  assumes "classify e cid r = Inr (Some (oid, nm, dir, ty))"
  shows "row_step e cid d r seen s =
     (if pairKey oid dir \<in> seen then Skip
      else case class_shown (toLowerCase e) (arg_class (args e)) (cached_class e s oid) of
        Inl te \<Rightarrow> Raise te (snd (getClass e oid s))
      | Inr b \<Rightarrow>
        Go (insert (pairKey oid dir) seen)
        (let s1 = snd (getClass e oid s);
             s2 = (if b
                   then s1\<lparr>allRels := allRels s1 @
                           [mk_edge d (cached_class e s oid) (oid, nm, dir, ty)]\<rparr>
                   else s1)
         in if d < maxDepth e \<and> JStr oid \<notin> visited s
            then s2\<lparr>visited := insert (JStr oid) (visited s2)\<rparr>
            else s2)
        (if d < maxDepth e \<and> JStr oid \<notin> visited s then Some oid else None))"
proof -
  obtain s1 where g: "getClass e oid s = (cached_class e s oid, s1)"
    using getClass_fst [of e oid s] by (cases "getClass e oid s") auto
  have v: "visited s1 = visited s" using getClass_snd(1) [of e oid s] g by simp
  show ?thesis
  proof (cases "pairKey oid dir \<in> seen")
    case True
    then show ?thesis by (simp add: row_step_def assms)
  next
    case False
    show ?thesis
    proof (cases "class_shown (toLowerCase e) (arg_class (args e)) (cached_class e s oid)")
      case (Inl te)
      then show ?thesis using False g by (simp add: row_step_def assms Let_def)
    next
      case (Inr b)
      then show ?thesis using False g v by (simp add: row_step_def assms mk_edge_def Let_def)
    qed
  qed
qed

lemma row_step_not_SkipE:
  assumes "row_step e cid d r seen s \<noteq> Skip"
  obtains te where "classify e cid r = Inl te" "row_step e cid d r seen s = Raise te s"
  | oid nm dir ty where "classify e cid r = Inr (Some (oid, nm, dir, ty))"
    "pairKey oid dir \<notin> seen"
proof (cases "classify e cid r")
  case (Inl te)
  then have "row_step e cid d r seen s = Raise te s" by (simp add: row_step_def)
  then show ?thesis using Inl that(1) by blast
next
  case (Inr x)
  show ?thesis
  proof (cases x)
    case None
    then have "row_step e cid d r seen s = Skip" using Inr by (simp add: row_step_def)
    then show ?thesis using assms by simp
  next
    case (Some t)
    obtain oid nm dir ty where t: "t = (oid, nm, dir, ty)" by (cases t) auto
    have c: "classify e cid r = Inr (Some (oid, nm, dir, ty))" using Inr Some t by simp
    have "pairKey oid dir \<notin> seen"
      using assms row_step_classified [OF c, of d seen s]
      by (cases "pairKey oid dir \<in> seen") auto
    then show ?thesis using c that(2) by blast
  qed
qed

lemma row_step_GoE:
  assumes "row_step e cid d r seen s = Go seen' s2 nxt"
  obtains oid nm dir ty b where
    "classify e cid r = Inr (Some (oid, nm, dir, ty))"
    "pairKey oid dir \<notin> seen"
    "seen' = insert (pairKey oid dir) seen"
    "class_shown (toLowerCase e) (arg_class (args e)) (cached_class e s oid) = Inr b"
    "allRels s2 = allRels s @
       (if b then [mk_edge d (cached_class e s oid) (oid, nm, dir, ty)] else [])"
    "classCache s2 = (classCache s)(JStr oid \<mapsto> cached_class e s oid)"
    "calls s2 = calls s @ (if classCache s (JStr oid) = None then [GetClass oid] else [])"
    "nxt = (if d < maxDepth e \<and> JStr oid \<notin> visited s then Some oid else None)"
    "visited s2 = (if d < maxDepth e then insert (JStr oid) (visited s) else visited s)"
proof -
  from assms have ns: "row_step e cid d r seen s \<noteq> Skip" by simp
  obtain oid nm dir ty where c: "classify e cid r = Inr (Some (oid, nm, dir, ty))"
    and k: "pairKey oid dir \<notin> seen"
  proof (rule row_step_not_SkipE [OF ns])
    fix te
    assume "classify e cid r = Inl te" "row_step e cid d r seen s = Raise te s"
    then show thesis using assms by simp
  next
    fix oid nm dir ty
    assume "classify e cid r = Inr (Some (oid, nm, dir, ty))" "pairKey oid dir \<notin> seen"
    then show thesis by (rule that)
  qed
  note eq = row_step_classified [OF c, of d seen s]
  obtain b where b: "class_shown (toLowerCase e) (arg_class (args e)) (cached_class e s oid) = Inr b"
    using assms eq k
    by (cases "class_shown (toLowerCase e) (arg_class (args e)) (cached_class e s oid)") auto
  define s1 where "s1 = snd (getClass e oid s)"
  define s2' where "s2' = (if b
                   then s1\<lparr>allRels := allRels s1 @
                           [mk_edge d (cached_class e s oid) (oid, nm, dir, ty)]\<rparr>
                   else s1)"
  have "row_step e cid d r seen s = Go (insert (pairKey oid dir) seen)
          (if d < maxDepth e \<and> JStr oid \<notin> visited s
           then s2'\<lparr>visited := insert (JStr oid) (visited s2')\<rparr> else s2')
          (if d < maxDepth e \<and> JStr oid \<notin> visited s then Some oid else None)"
    unfolding eq s1_def s2'_def Let_def b sum.case using k by (simp only: if_False)
  then have "Go seen' s2 nxt = Go (insert (pairKey oid dir) seen)
          (if d < maxDepth e \<and> JStr oid \<notin> visited s
           then s2'\<lparr>visited := insert (JStr oid) (visited s2')\<rparr> else s2')
          (if d < maxDepth e \<and> JStr oid \<notin> visited s then Some oid else None)"
    using assms by simp
  then have s2: "s2 = (if d < maxDepth e \<and> JStr oid \<notin> visited s
           then s2'\<lparr>visited := insert (JStr oid) (visited s2')\<rparr> else s2')"
    and seen': "seen' = insert (pairKey oid dir) seen"
    and nxt: "nxt = (if d < maxDepth e \<and> JStr oid \<notin> visited s then Some oid else None)"
    by (simp_all only: step.inject)
  have s1: "visited s1 = visited s" "allRels s1 = allRels s"
    "classCache s1 = (classCache s)(JStr oid \<mapsto> cached_class e s oid)"
    "calls s1 = calls s @ (if classCache s (JStr oid) = None then [GetClass oid] else [])"
    unfolding s1_def by (rule getClass_snd)+
  have s2': "visited s2' = visited s"
    "allRels s2' = allRels s @
       (if b then [mk_edge d (cached_class e s oid) (oid, nm, dir, ty)] else [])"
    "classCache s2' = (classCache s)(JStr oid \<mapsto> cached_class e s oid)"
    "calls s2' = calls s @ (if classCache s (JStr oid) = None then [GetClass oid] else [])"
    using s1 by (simp_all add: s2'_def)
  show thesis
  proof (rule that [OF c k seen' b _ _ _ nxt])
    show "allRels s2 = allRels s @
       (if b then [mk_edge d (cached_class e s oid) (oid, nm, dir, ty)] else [])"
      using s2'(2) by (simp add: s2)
    show "classCache s2 = (classCache s)(JStr oid \<mapsto> cached_class e s oid)"
      using s2'(3) by (simp add: s2)
    show "calls s2 = calls s @ (if classCache s (JStr oid) = None then [GetClass oid] else [])"
      using s2'(4) by (simp add: s2)
    show "visited s2 = (if d < maxDepth e then insert (JStr oid) (visited s) else visited s)"
      using s2'(1) by (auto simp add: s2)
  qed
qed

lemma row_step_RaiseE:
  assumes "row_step e cid d r seen s = Raise te s'"
  obtains "classify e cid r = Inl te" "s' = s"
  | oid nm dir ty where
    "classify e cid r = Inr (Some (oid, nm, dir, ty))"
    "pairKey oid dir \<notin> seen"
    "class_shown (toLowerCase e) (arg_class (args e)) (cached_class e s oid) = Inl te"
    "visited s' = visited s" "allRels s' = allRels s"
    "classCache s' = (classCache s)(JStr oid \<mapsto> cached_class e s oid)"
    "calls s' = calls s @ (if classCache s (JStr oid) = None then [GetClass oid] else [])"
proof -
  from assms have "row_step e cid d r seen s \<noteq> Skip" by simp
  then show thesis
  proof (rule row_step_not_SkipE)
    fix te'
    assume "classify e cid r = Inl te'" "row_step e cid d r seen s = Raise te' s"
    then have "classify e cid r = Inl te" "s' = s" using assms by simp_all
    then show thesis by (rule that(1))
  next
    fix oid nm dir ty
    assume c: "classify e cid r = Inr (Some (oid, nm, dir, ty))" and k: "pairKey oid dir \<notin> seen"
    note eq = row_step_classified [OF c, of d seen s]
    have b: "class_shown (toLowerCase e) (arg_class (args e)) (cached_class e s oid) = Inl te"
      and s': "s' = snd (getClass e oid s)"
      using assms eq k
      by (cases "class_shown (toLowerCase e) (arg_class (args e)) (cached_class e s oid)"; simp)+
    show thesis
      by (rule that(2) [OF c k b]) (simp_all only: s' getClass_snd)
  qed
qed

lemma classify_SomeD:
  assumes "classify e cid r = Inr (Some (oid, nm, dir, ty))"
  shows "JStr oid \<noteq> cid" "dir \<noteq> both" "direction e = both \<or> dir = direction e"
    "passes (toLowerCase e) (arg_type (args e)) ty" "ty \<noteq> []"
    "dir = downstream \<Longrightarrow> JStr (extractValue (get_prop r ''parent'')) = cid
        \<and> oid = extractValue (get_prop r ''child'') \<and> nm = extractDisplay (get_prop r ''child'')"
    "dir = upstream \<Longrightarrow> JStr (extractValue (get_prop r ''child'')) = cid
        \<and> oid = extractValue (get_prop r ''parent'') \<and> nm = extractDisplay (get_prop r ''parent'')"
    "ty = (if extractDisplay (get_prop r ''type'') = [] then ''Related to''
           else extractDisplay (get_prop r ''type''))"
    "\<not> nullish r"
  using assms
  by (auto simp: classify_def member_def Let_def split: if_splits option.splits sum.splits)


lemma classify_string_row: "classify e cid (JStr s) = Inr None"
  by (simp add: classify_def member_def extractValue.simps extractDisplay.simps)

section \<open>Requests sent to the store\<close>

lemma fetched_simps [simp]:
  "fetched [] = []"
  "fetched (cs @ cs') = fetched cs @ fetched cs'"
  "fetched [QueryRel j] = [j]"
  "fetched [GetClass i] = []"
  "fetched [GetCi i] = []"
  "fetched [QueryCi i] = []"
  by (simp_all add: fetched_def)

lemma looked_up_simps [simp]:
  "looked_up [] = []"
  "looked_up (cs @ cs') = looked_up cs @ looked_up cs'"
  "looked_up [QueryRel j] = []"
  "looked_up [GetClass i] = [i]"
  "looked_up [GetCi i] = []"
  "looked_up [QueryCi i] = []"
  by (simp_all add: looked_up_def)

lemma fetch_inv_traverse:
  "fetch_inv s \<Longrightarrow> cid \<in> visited s \<Longrightarrow> cid \<notin> set (fetched (calls s)) \<Longrightarrow>
     fetch_inv (final (traverse e cid d s)) \<and> visited s \<subseteq> visited (final (traverse e cid d s))"
  and fetch_inv_loop:
  "fetch_inv s \<Longrightarrow>
     fetch_inv (final (loop e cid d recs seen s))
     \<and> visited s \<subseteq> visited (final (loop e cid d recs seen s))"
proof (induction cid d s and cid d recs seen s rule: traverse_loop_induct [where e = e])
  case (too_deep cid d s)
  then show ?case by (simp add: traverse_too_deep)
next
  case (threw cid d s m)
  then show ?case by (simp add: traverse_threw fetch_inv_def)
next
  case (bad cid d s b te)
  then show ?case by (simp add: traverse_bad fetch_inv_def)
next
  case (rows cid d s b recs)
  have "fetch_inv (s\<lparr>calls := calls s @ [QueryRel cid]\<rparr>)"
    using rows.prems by (simp add: fetch_inv_def)
  then show ?case using rows by (simp add: traverse_rows)
next
  case (Nil cid d seen s)
  then show ?case by simp
next
  case (skip cid d r rs seen s)
  then show ?case by (simp add: loop_skip)
next
  case (raise cid d r rs seen s te s')
  from raise(1) have "fetch_inv s' \<and> visited s \<subseteq> visited s'"
  proof (rule row_step_RaiseE)
    assume "s' = s"
    then show ?thesis using raise.prems by simp
  next
    fix oid nm dir ty
    assume "visited s' = visited s"
      "calls s' = calls s @ (if classCache s (JStr oid) = None then [GetClass oid] else [])"
    then show ?thesis using raise.prems by (auto simp: fetch_inv_def)
  qed
  then show ?case using raise(1) by (simp add: loop_raise)
next
  case (stay cid d r rs seen s seen' s2)
  from stay(1) have "fetch_inv s2 \<and> visited s \<subseteq> visited s2"
  proof (rule row_step_GoE)
    fix oid nm dir ty
    assume "calls s2 = calls s @ (if classCache s (JStr oid) = None then [GetClass oid] else [])"
      "visited s2 = (if d < maxDepth e then insert (JStr oid) (visited s) else visited s)"
    then show ?thesis using stay.prems by (auto simp: fetch_inv_def)
  qed
  then show ?case using stay by (auto simp add: loop_stay)
next
  case (recurse cid d r rs seen s seen' s2 oid)
  from recurse(1) have s2: "fetch_inv s2 \<and> visited s \<subseteq> visited s2 \<and> JStr oid \<in> visited s2
      \<and> JStr oid \<notin> set (fetched (calls s2))"
  proof (rule row_step_GoE)
    fix oid' nm dir ty
    assume "calls s2 = calls s @ (if classCache s (JStr oid') = None then [GetClass oid'] else [])"
      "visited s2 = (if d < maxDepth e then insert (JStr oid') (visited s) else visited s)"
      "Some oid = (if d < maxDepth e \<and> JStr oid' \<notin> visited s then Some oid' else None)"
    then show ?thesis using recurse.prems by (auto simp: fetch_inv_def split: if_splits)
  qed
  then have t: "fetch_inv (final (traverse e (JStr oid) (d + 1) s2))"
    "visited s2 \<subseteq> visited (final (traverse e (JStr oid) (d + 1) s2))"
    using recurse(2) by simp_all
  show ?case
  proof (cases "traverse e (JStr oid) (d + 1) s2")
    case (Done s3)
    then show ?thesis using recurse(1) recurse(3) [OF Done] t s2
      by (auto simp add: loop_recurse_done)
  next
    case (Raised te s3)
    then show ?thesis using recurse(1) t s2 by (auto simp add: loop_recurse_raised)
  qed
qed




section \<open>At-most-once expansion\<close>

lemma answer_simps [simp]:
  "answer a cfg i n c (Done s) = (Inr (result_of a cfg i n c s), calls s)"
  "answer a cfg i n c (Raised te s) = (Inl (err te), calls s)"
  "snd (answer a cfg i n c out) = calls (final out)"
  by (simp_all add: answer_def split: outcome.splits)

lemma handler_invalid:
  "\<not> truthy_opt (arg_ci_name a) \<Longrightarrow> \<not> truthy_opt (arg_sys_id a) \<Longrightarrow>
   handler lc a cl cfg = (Inl (err ''Either ci_name or sys_id is required''), [])"
  by (simp add: handler_def)

lemma handler_unresolved:
  "truthy_opt (arg_ci_name a) \<or> truthy_opt (arg_sys_id a) \<Longrightarrow>
   resolve_root a cl = (Inl m, cs) \<Longrightarrow> handler lc a cl cfg = (Inl m, cs)"
  by (auto simp add: handler_def)

lemma handler_resolved:
  "truthy_opt (arg_ci_name a) \<or> truthy_opt (arg_sys_id a) \<Longrightarrow>
   resolve_root a cl = (Inr (rootId, rootName, rootClass), cs0) \<Longrightarrow>
   handler lc a cl cfg =
     answer a cfg rootId rootName rootClass
       (traverse (mk_env lc a cl cfg) rootId 1 (init_state rootId rootClass cs0))"
  by (auto simp add: handler_def answer_def)

lemma handler_cases [case_names invalid unresolved resolved]:
  obtains "\<not> truthy_opt (arg_ci_name a)" "\<not> truthy_opt (arg_sys_id a)"
      "handler lc a cl cfg = (Inl (err ''Either ci_name or sys_id is required''), [])"
  | m cs where "truthy_opt (arg_ci_name a) \<or> truthy_opt (arg_sys_id a)"
      "resolve_root a cl = (Inl m, cs)" "handler lc a cl cfg = (Inl m, cs)"
  | rootId rootName rootClass cs0 where "truthy_opt (arg_ci_name a) \<or> truthy_opt (arg_sys_id a)"
      "resolve_root a cl = (Inr (rootId, rootName, rootClass), cs0)"
      "handler lc a cl cfg =
         answer a cfg rootId rootName rootClass
           (traverse (mk_env lc a cl cfg) rootId 1 (init_state rootId rootClass cs0))"
proof (cases "\<not> truthy_opt (arg_ci_name a) \<and> \<not> truthy_opt (arg_sys_id a)")
  case True
  then show ?thesis using that(1) handler_invalid by blast
next
  case False
  obtain out cs where rr: "resolve_root a cl = (out, cs)" by (cases "resolve_root a cl") auto
  show ?thesis
  proof (cases out)
    case (Inl m)
    then show ?thesis using that(2) [of m cs] False rr handler_unresolved [of a cl m cs lc cfg]
      by blast
  next
    case (Inr t)
    obtain rootId rootName rootClass where t: "t = (rootId, rootName, rootClass)"
      by (cases t) auto
    show ?thesis
      using that(3) [of rootId rootName rootClass cs] False rr Inr t
        handler_resolved [of a cl rootId rootName rootClass cs lc cfg]
      by blast
  qed
qed

lemma resolve_root_calls:
  "fetched (snd (resolve_root a cl)) = []" "looked_up (snd (resolve_root a cl)) = []"
  by (simp_all add: resolve_root_def Let_def split: reply.splits sum.splits)

lemma init_state_simps [simp]:
  "visited (init_state i c cs) = {i}"
  "classCache (init_state i c cs) = [i \<mapsto> c]"
  "allRels (init_state i c cs) = []"
  "calls (init_state i c cs) = cs"
  by (simp_all add: init_state_def)

lemma handler_fetch_distinct: "distinct (fetched (snd (handler lc a cl cfg)))"
proof (cases rule: handler_cases [where a = a and lc = lc and cl = cl and cfg = cfg])
  case invalid
  then show ?thesis by simp
next
  case (unresolved m cs)
  then show ?thesis using resolve_root_calls(1) [of a cl] by simp
next
  case (resolved rootId rootName rootClass cs0)
  have "fetched cs0 = []" using resolve_root_calls(1) [of a cl] resolved(2) by simp
  then have "fetch_inv (init_state rootId rootClass cs0)" by (simp add: fetch_inv_def)
  then have "fetch_inv (final (traverse (mk_env lc a cl cfg) rootId 1 (init_state rootId rootClass cs0)))"
    using fetch_inv_traverse [of "init_state rootId rootClass cs0" rootId] \<open>fetched cs0 = []\<close>
    by simp
  then show ?thesis using resolved(3) by (simp add: fetch_inv_def)
qed


lemma cycle_run:
  "handler ascii_lower (request None (Some ''A'') (Some 5) both) cycle_client default_config =
   (Inr \<lparr>root = \<lparr>root_name = JStr ''a'', root_class = JStr ''Server'', root_sys_id = JStr ''A''\<rparr>,
         relationships =
           [\<lparr>r_name = ''b'', r_class = JStr ''Server'', r_type = ''Runs on'',
               r_direction = downstream, r_sys_id = ''B'', r_depth = 1\<rparr>,
            \<lparr>r_name = ''a'', r_class = JStr ''Server'', r_type = ''Runs on'',
               r_direction = upstream, r_sys_id = ''A'', r_depth = 2\<rparr>,
            \<lparr>r_name = ''c'', r_class = JStr ''Server'', r_type = ''Runs on'',
               r_direction = downstream, r_sys_id = ''C'', r_depth = 2\<rparr>,
            \<lparr>r_name = ''b'', r_class = JStr ''Server'', r_type = ''Runs on'',
               r_direction = upstream, r_sys_id = ''B'', r_depth = 3\<rparr>,
            \<lparr>r_name = ''a'', r_class = JStr ''Server'', r_type = ''Runs on'',
               r_direction = downstream, r_sys_id = ''A'', r_depth = 3\<rparr>,
            \<lparr>r_name = ''c'', r_class = JStr ''Server'', r_type = ''Runs on'',
               r_direction = upstream, r_sys_id = ''C'', r_depth = 1\<rparr>],
         meta = \<lparr>meta_depth = 5, meta_direction = both, meta_total = 6\<rparr>\<rparr>,
    [GetCi ''A'', QueryRel (JStr ''A''), GetClass ''B'', QueryRel (JStr ''B''),
     GetClass ''C'', QueryRel (JStr ''C'')])"
  by (simp add: eval_simps cycle_client_def)

text \<open>
  C4. The recursion of \<open>traverse\<close> ends on every store, request and state
  (every argument is in the domain of the definition), and the handler requests the
  relationship rows of a node at most once: the ids in the \<open>QueryRel\<close> requests of
  one call are pairwise distinct, and each of them is in the visited set, which
  starts as the root alone. On the cycle A \<rightarrow> B \<rightarrow> C \<rightarrow> A, from A with depth 5, the
  handler returns, and the rows of A, B and C are requested once each.
\<close>

theorem expansion_at_most_once:
  "traverse_loop_dom (Inl (e, cid, d, s))
   \<and> distinct (fetched (snd (handler lc a cl cfg)))
   \<and> visited (init_state rootId rootClass cs0) = {rootId}
   \<and> (fetched cs0 = [] \<longrightarrow>
        distinct (fetched (calls (final (traverse e rootId 1 (init_state rootId rootClass cs0)))))
        \<and> set (fetched (calls (final (traverse e rootId 1 (init_state rootId rootClass cs0)))))
            \<subseteq> visited (final (traverse e rootId 1 (init_state rootId rootClass cs0))))
   \<and> (\<exists>res. handler ascii_lower (request None (Some ''A'') (Some 5) both) cycle_client default_config
          = (Inr res, [GetCi ''A'', QueryRel (JStr ''A''), GetClass ''B'', QueryRel (JStr ''B''),
                       GetClass ''C'', QueryRel (JStr ''C'')]))
   \<and> fetched (snd (handler ascii_lower (request None (Some ''A'') (Some 5) both) cycle_client
        default_config)) = [JStr ''A'', JStr ''B'', JStr ''C'']"
proof -
  have "fetched cs0 = [] \<longrightarrow>
        fetch_inv (final (traverse e rootId 1 (init_state rootId rootClass cs0)))"
  proof
    assume f: "fetched cs0 = []"
    then have "fetch_inv (init_state rootId rootClass cs0)" by (simp add: fetch_inv_def)
    then show "fetch_inv (final (traverse e rootId 1 (init_state rootId rootClass cs0)))"
      using fetch_inv_traverse [of "init_state rootId rootClass cs0" rootId] f by simp
  qed
  moreover have "fetched (snd (handler ascii_lower (request None (Some ''A'') (Some 5) both)
      cycle_client default_config)) = [JStr ''A'', JStr ''B'', JStr ''C'']"
    by (simp add: cycle_run fetched_def)
  ultimately show ?thesis
    using handler_fetch_distinct [of lc a cl cfg] cycle_run traverse_terminates [of e cid d s]
    by (simp add: fetch_inv_def)
qed

theorem expansion_at_most_once_witness:
  "fetched [GetCi ''A''] = []
   \<and> distinct (fetched (calls (final (traverse (mk_env ascii_lower (request None (Some ''A'') (Some 5) both)
         cycle_client default_config) (JStr ''A'') 1
         (init_state (JStr ''A'') (JStr ''Server'') [GetCi ''A''])))))"
  using expansion_at_most_once [where a = "request None (Some ''A'') (Some 5) both"
      and cl = cycle_client and cfg = default_config and rootId = "JStr ''A''"
      and rootClass = "JStr ''Server''" and ?cs0.0 = "[GetCi ''A'']"
      and e = "mk_env ascii_lower (request None (Some ''A'') (Some 5) both) cycle_client default_config"]
  by simp

section \<open>Failures of the store\<close>















section \<open>Edges reported by the traversal\<close>

lemma edges_inv_traverse:
  assumes step: "\<And>cid d r oid nm dir ty cls.
      r \<in> set (rows_of (client e) cid) \<Longrightarrow> d0 \<le> d \<Longrightarrow> d \<le> maxDepth e \<Longrightarrow>
      classify e cid r = Inr (Some (oid, nm, dir, ty)) \<Longrightarrow>
      class_shown (toLowerCase e) (arg_class (args e)) cls = Inr True \<Longrightarrow>
      E (mk_edge d cls (oid, nm, dir, ty))"
  shows "d0 \<le> d \<Longrightarrow> \<forall>x\<in>set (allRels s). E x \<Longrightarrow>
         \<forall>x\<in>set (allRels (final (traverse e cid d s))). E x"
    and "d0 \<le> d \<Longrightarrow> d \<le> maxDepth e \<Longrightarrow> set recs \<subseteq> set (rows_of (client e) cid) \<Longrightarrow>
         \<forall>x\<in>set (allRels s). E x \<Longrightarrow> \<forall>x\<in>set (allRels (final (loop e cid d recs seen s))). E x"
proof (induction cid d s and cid d recs seen s rule: traverse_loop_induct [where e = e])
  case (too_deep cid d s)
  then show ?case by (simp add: traverse_too_deep)
next
  case (threw cid d s m)
  then show ?case by (simp add: traverse_threw)
next
  case (bad cid d s b te)
  then show ?case by (simp add: traverse_bad)
next
  case (rows cid d s b recs)
  then show ?case by (simp add: traverse_rows rows_of_def)
next
  case (Nil cid d seen s)
  then show ?case by simp
next
  case (skip cid d r rs seen s)
  then show ?case by (simp add: loop_skip)
next
  case (raise cid d r rs seen s te s')
  from raise(1) have "allRels s' = allRels s" by (rule row_step_RaiseE) simp_all
  then show ?case using raise by (simp add: loop_raise)
next
  case (stay cid d r rs seen s seen' s2)
  from stay(1) have "\<forall>x\<in>set (allRels s2). E x"
  proof (rule row_step_GoE)
    fix oid nm dir ty b
    assume "classify e cid r = Inr (Some (oid, nm, dir, ty))"
      "class_shown (toLowerCase e) (arg_class (args e)) (cached_class e s oid) = Inr b"
      "allRels s2 = allRels s @
       (if b then [mk_edge d (cached_class e s oid) (oid, nm, dir, ty)] else [])"
    then show ?thesis using stay.prems step [of r cid d oid nm dir ty "cached_class e s oid"]
      by auto
  qed
  then show ?case using stay by (simp add: loop_stay)
next
  case (recurse cid d r rs seen s seen' s2 oid)
  from recurse(1) have "\<forall>x\<in>set (allRels s2). E x"
  proof (rule row_step_GoE)
    fix oid nm dir ty b
    assume "classify e cid r = Inr (Some (oid, nm, dir, ty))"
      "class_shown (toLowerCase e) (arg_class (args e)) (cached_class e s oid) = Inr b"
      "allRels s2 = allRels s @
       (if b then [mk_edge d (cached_class e s oid) (oid, nm, dir, ty)] else [])"
    then show ?thesis using recurse.prems step [of r cid d oid nm dir ty "cached_class e s oid"]
      by auto
  qed
  then have t: "\<forall>x\<in>set (allRels (final (traverse e (JStr oid) (d + 1) s2))). E x"
    using recurse(2) recurse.prems by simp
  show ?case
  proof (cases "traverse e (JStr oid) (d + 1) s2")
    case (Done s3)
    then show ?thesis using recurse(1) recurse(3) [OF Done] recurse.prems t
      by (simp add: loop_recurse_done)
  next
    case (Raised te s3)
    then show ?thesis using recurse(1) t by (simp add: loop_recurse_raised)
  qed
qed

lemma handler_InrD:
  assumes "handler lc a cl cfg = (Inr res, cs)"
  obtains rootId rootName rootClass cs0 s'
  where "truthy_opt (arg_ci_name a) \<or> truthy_opt (arg_sys_id a)"
    "resolve_root a cl = (Inr (rootId, rootName, rootClass), cs0)"
    "traverse (mk_env lc a cl cfg) rootId 1 (init_state rootId rootClass cs0) = Done s'"
    "res = result_of a cfg rootId rootName rootClass s'" "cs = calls s'"
proof (cases rule: handler_cases [where a = a and lc = lc and cl = cl and cfg = cfg])
  case invalid
  then show ?thesis using assms by simp
next
  case (unresolved m cs)
  then show ?thesis using assms by simp
next
  case (resolved rootId rootName rootClass cs0)
  show ?thesis
  proof (cases "traverse (mk_env lc a cl cfg) rootId 1 (init_state rootId rootClass cs0)")
    case (Done s')
    then show ?thesis using resolved assms that [of rootId rootName rootClass cs0 s'] by simp
  next
    case (Raised te s')
    then show ?thesis using resolved assms by simp
  qed
qed

lemma handler_edges:
  assumes "handler lc a cl cfg = (Inr res, cs)"
    and step: "\<And>cid d r oid nm dir ty cls.
      r \<in> set (rows_of cl cid) \<Longrightarrow> 1 \<le> d \<Longrightarrow> d \<le> effective_depth a cfg \<Longrightarrow>
      classify (mk_env lc a cl cfg) cid r = Inr (Some (oid, nm, dir, ty)) \<Longrightarrow>
      class_shown lc (arg_class a) cls = Inr True \<Longrightarrow>
      E (mk_edge d cls (oid, nm, dir, ty))"
  shows "\<forall>x\<in>set (relationships res). E x"
  using assms(1)
proof (rule handler_InrD)
  fix rootId rootName rootClass cs0 s'
  assume tr: "traverse (mk_env lc a cl cfg) rootId 1 (init_state rootId rootClass cs0) = Done s'"
    and res: "res = result_of a cfg rootId rootName rootClass s'"
  have "\<forall>x\<in>set (allRels (final (traverse (mk_env lc a cl cfg) rootId 1
      (init_state rootId rootClass cs0)))). E x"
    by (rule edges_inv_traverse(1) [where ?d0.0 = 1 and E = E])
       (use step in \<open>simp_all add: mk_env_def\<close>)
  then show ?thesis using tr res by (simp add: result_of_def)
qed

lemma calls_extend:
  "\<exists>cs. calls (final (traverse e i d s)) = calls s @ cs"
  "\<exists>cs. calls (final (loop e i d recs seen s)) = calls s @ cs"
proof (induction i d s and i d recs seen s rule: traverse_loop_induct [where e = e])
  case (raise cid d r rs seen s te s')
  from raise(1) have "\<exists>cs. calls s' = calls s @ cs" by (rule row_step_RaiseE) simp_all
  then show ?case using raise by (simp add: loop_raise)
next
  case (stay cid d r rs seen s seen' s2)
  from stay(1) have "\<exists>cs. calls s2 = calls s @ cs" by (rule row_step_GoE) simp
  then show ?case using stay by (auto simp: loop_stay)
next
  case (recurse cid d r rs seen s seen' s2 oid)
  from recurse(1) have s2: "\<exists>cs. calls s2 = calls s @ cs" by (rule row_step_GoE) simp
  show ?case
  proof (cases "traverse e (JStr oid) (d + 1) s2")
    case (Done s3)
    then show ?thesis using recurse(1,2) recurse(3) [OF Done] s2
      by (auto simp: loop_recurse_done)
  next
    case (Raised te s3)
    then show ?thesis using recurse(1,2) s2 by (auto simp: loop_recurse_raised)
  qed
qed (auto simp: traverse_too_deep traverse_threw traverse_bad traverse_rows loop_skip)

lemma lone_run:
  "handler ascii_lower (request (Some ''db02'') (Some ''id1'') None both) lone_client default_config =
    (Inr \<lparr>root = \<lparr>root_name = JStr ''web01'', root_class = JStr ''Server'',
                   root_sys_id = JStr ''id1''\<rparr>,
          relationships = [],
          meta = \<lparr>meta_depth = 3, meta_direction = both, meta_total = 0\<rparr>\<rparr>,
     [GetCi ''id1'', QueryRel (JStr ''id1'')])"
  by (simp add: eval_simps lone_client_def)

section \<open>Root resolution\<close>

text \<open>
  C1, as the claim states it, fails: with both a name and a sys_id the handler
  does not fail. On the store with the one item \<open>id1\<close> named \<open>web01\<close>, the request
  with name \<open>db02\<close> and sys_id \<open>id1\<close> is answered with root \<open>web01\<close>.
\<close>

theorem both_supplied_counterexample:
  "truthy_opt (arg_ci_name (request (Some ''db02'') (Some ''id1'') None both))
   \<and> truthy_opt (arg_sys_id (request (Some ''db02'') (Some ''id1'') None both))
   \<and> handler ascii_lower (request (Some ''db02'') (Some ''id1'') None both) lone_client default_config =
    (Inr \<lparr>root = \<lparr>root_name = JStr ''web01'', root_class = JStr ''Server'',
                   root_sys_id = JStr ''id1''\<rparr>,
          relationships = [],
          meta = \<lparr>meta_depth = 3, meta_direction = both, meta_total = 0\<rparr>\<rparr>,
     [GetCi ''id1'', QueryRel (JStr ''id1'')])"
  using lone_run by (simp add: request_def truthy_opt_def)

text \<open>
  C1, amended. With neither a name nor a sys_id (absent or empty) the handler
  fails at once with the text \<open>Either ci_name or sys_id is required\<close> and sends
  no request. With a sys_id the name plays no part: the handler answers as it
  does without the name, and its first request is the point lookup of that
  sys_id.
\<close>

theorem root_input_validation:
  "(\<not> truthy_opt (arg_ci_name a) \<and> \<not> truthy_opt (arg_sys_id a) \<longrightarrow>
      handler lc a cl cfg = (Inl (err ''Either ci_name or sys_id is required''), []))
   \<and> (truthy_opt (arg_sys_id a) \<longrightarrow>
        handler lc a cl cfg = handler lc (a\<lparr>arg_ci_name := None\<rparr>) cl cfg
        \<and> (\<exists>cs. snd (handler lc a cl cfg) = GetCi (tmpl (arg_sys_id a)) # cs))"
proof -
  have a: "\<not> truthy_opt (arg_ci_name a) \<and> \<not> truthy_opt (arg_sys_id a) \<longrightarrow>
      handler lc a cl cfg = (Inl (err ''Either ci_name or sys_id is required''), [])"
    by (simp add: handler_def)
  have b: "handler lc a cl cfg = handler lc (a\<lparr>arg_ci_name := None\<rparr>) cl cfg"
    if t: "truthy_opt (arg_sys_id a)"
    by (rule handler_args_cong [symmetric])
       (use t in \<open>simp_all add: effective_depth_def effective_direction_def truthy_opt_def\<close>)
  have c: "\<exists>cs. snd (handler lc a cl cfg) = GetCi (tmpl (arg_sys_id a)) # cs"
    if t: "truthy_opt (arg_sys_id a)"
  proof (cases rule: handler_cases [where a = a and lc = lc and cl = cl and cfg = cfg])
    case invalid
    then show ?thesis using t by simp
  next
    case (unresolved m cs)
    then show ?thesis using t
      by (auto simp: resolve_root_def split: reply.splits sum.splits if_splits)
  next
    case (resolved rootId rootName rootClass cs0)
    have "cs0 = [GetCi (tmpl (arg_sys_id a))]" using resolved(2) t
      by (auto simp: resolve_root_def split: reply.splits sum.splits if_splits)
    then show ?thesis
      using resolved(3)
        calls_extend(1) [of "mk_env lc a cl cfg" rootId 1 "init_state rootId rootClass cs0"]
      by auto
  qed
  show ?thesis using a b c by blast
qed

theorem root_input_validation_witness:
  "\<not> truthy_opt (arg_ci_name (request None (Some '''') None both))
   \<and> \<not> truthy_opt (arg_sys_id (request None (Some '''') None both))
   \<and> handler ascii_lower (request None (Some '''') None both) lone_client default_config
       = (Inl ''ERROR: Either ci_name or sys_id is required'', [])
   \<and> truthy_opt (arg_sys_id (request (Some ''db02'') (Some ''id1'') None both))
   \<and> handler ascii_lower (request (Some ''db02'') (Some ''id1'') None both) lone_client default_config
       = handler ascii_lower (request None (Some ''id1'') None both) lone_client default_config"
  using root_input_validation [of "request None (Some '''') None both" ascii_lower lone_client default_config]
    root_input_validation [of "request (Some ''db02'') (Some ''id1'') None both" ascii_lower lone_client default_config]
  by (simp add: request_def truthy_opt_def err_def)

section \<open>Direction and names of the reported edges\<close>

lemma r_fields_mk_edge [simp]:
  "r_name (mk_edge d cls (oid, nm, dir, ty)) = (if nm = [] then oid else nm)"
  "r_class (mk_edge d cls (oid, nm, dir, ty)) = cls"
  "r_type (mk_edge d cls (oid, nm, dir, ty)) = ty"
  "r_direction (mk_edge d cls (oid, nm, dir, ty)) = dir"
  "r_sys_id (mk_edge d cls (oid, nm, dir, ty)) = oid"
  "r_depth (mk_edge d cls (oid, nm, dir, ty)) = d"
  by (simp_all add: mk_edge_def)

lemma bare_run:
  "handler ascii_lower (request None (Some ''0123456789abcdef0123456789abcdef'') (Some 1) both)
      bare_client default_config =
    (Inr \<lparr>root = \<lparr>root_name = JStr ''web01'', root_class = JStr ''Server'',
                   root_sys_id = JStr ''0123456789abcdef0123456789abcdef''\<rparr>,
          relationships =
            [\<lparr>r_name = ''aaaaaaaaaaaaaaaaaaaaaaaaaaaaaaaa'', r_class = JStr ''Database'',
               r_type = ''Contains'', r_direction = downstream,
               r_sys_id = ''aaaaaaaaaaaaaaaaaaaaaaaaaaaaaaaa'', r_depth = 1\<rparr>],
          meta = \<lparr>meta_depth = 1, meta_direction = both, meta_total = 1\<rparr>\<rparr>,
     [GetCi ''0123456789abcdef0123456789abcdef'',
      QueryRel (JStr ''0123456789abcdef0123456789abcdef''),
      GetClass ''aaaaaaaaaaaaaaaaaaaaaaaaaaaaaaaa''])"
  by (simp add: eval_simps bare_client_def)

text \<open>
  C9. With the impact flag the direction used is upstream whatever direction the
  request names: the handler answers as for the same request with direction
  upstream, reports upstream in \<open>meta\<close>, and every edge it reports is an upstream
  edge. Without the flag the direction of the request is used and reported as it
  is, and where it is not \<open>both\<close> every reported edge has that direction. The
  schema's defaults are direction \<open>both\<close> and no impact.
\<close>

theorem impact_forces_upstream:
  "effective_direction a = (if arg_impact a then upstream else arg_direction a)
   \<and> direction (mk_env lc a cl cfg) = effective_direction a
   \<and> effective_direction (schema_parse r)
       = (if raw_impact r = Some True then upstream
          else case raw_direction r of None \<Rightarrow> both | Some d \<Rightarrow> d)
   \<and> (handler lc a cl cfg = (Inr res, cs) \<longrightarrow>
        meta_direction (meta res) = (if arg_impact a then upstream else arg_direction a))
   \<and> (arg_impact a \<longrightarrow>
        handler lc a cl cfg = handler lc (a\<lparr>arg_direction := upstream\<rparr>) cl cfg
        \<and> handler lc a cl cfg
            = handler lc (a\<lparr>arg_direction := upstream, arg_impact := False\<rparr>) cl cfg)
   \<and> (handler lc a cl cfg = (Inr res, cs) \<and> effective_direction a \<noteq> both \<longrightarrow>
        (\<forall>x\<in>set (relationships res). r_direction x = effective_direction a))"
proof -
  have a: "effective_direction a = (if arg_impact a then upstream else arg_direction a)"
    by (simp add: effective_direction_def)
  have b: "direction (mk_env lc a cl cfg) = effective_direction a"
    by (simp add: mk_env_def)
  have c: "effective_direction (schema_parse r)
       = (if raw_impact r = Some True then upstream
          else case raw_direction r of None \<Rightarrow> both | Some d \<Rightarrow> d)"
    by (auto simp: effective_direction_def schema_parse_def split: option.splits)
  have d: "handler lc a cl cfg = (Inr res, cs) \<longrightarrow>
        meta_direction (meta res) = (if arg_impact a then upstream else arg_direction a)"
  proof
    assume "handler lc a cl cfg = (Inr res, cs)"
    then show "meta_direction (meta res) = (if arg_impact a then upstream else arg_direction a)"
      by (rule handler_InrD) (simp add: result_of_def effective_direction_def)
  qed
  have e: "arg_impact a \<longrightarrow>
        handler lc a cl cfg = handler lc (a\<lparr>arg_direction := upstream\<rparr>) cl cfg
        \<and> handler lc a cl cfg
            = handler lc (a\<lparr>arg_direction := upstream, arg_impact := False\<rparr>) cl cfg"
  proof
    assume i: "arg_impact a"
    have "handler lc (a\<lparr>arg_direction := upstream\<rparr>) cl cfg = handler lc a cl cfg"
      by (rule handler_args_cong) (use i in \<open>simp_all add: effective_depth_def effective_direction_def\<close>)
    moreover have "handler lc (a\<lparr>arg_direction := upstream, arg_impact := False\<rparr>) cl cfg
        = handler lc a cl cfg"
      by (rule handler_args_cong) (use i in \<open>simp_all add: effective_depth_def effective_direction_def\<close>)
    ultimately show "handler lc a cl cfg = handler lc (a\<lparr>arg_direction := upstream\<rparr>) cl cfg
        \<and> handler lc a cl cfg
            = handler lc (a\<lparr>arg_direction := upstream, arg_impact := False\<rparr>) cl cfg"
      by simp
  qed
  have f: "handler lc a cl cfg = (Inr res, cs) \<and> effective_direction a \<noteq> both \<longrightarrow>
        (\<forall>x\<in>set (relationships res). r_direction x = effective_direction a)"
  proof
    assume h: "handler lc a cl cfg = (Inr res, cs) \<and> effective_direction a \<noteq> both"
    show "\<forall>x\<in>set (relationships res). r_direction x = effective_direction a"
    proof (rule handler_edges [where E = "\<lambda>x. r_direction x = effective_direction a"])
      show "handler lc a cl cfg = (Inr res, cs)" using h by simp
    next
      fix cid d r oid nm dir ty cls
      assume "classify (mk_env lc a cl cfg) cid r = Inr (Some (oid, nm, dir, ty))"
      then show "r_direction (mk_edge d cls (oid, nm, dir, ty)) = effective_direction a"
        using classify_SomeD(3) [of "mk_env lc a cl cfg" cid r oid nm dir ty] h b by simp
    qed
  qed
  show ?thesis by (intro conjI a b c d e f)
qed

lemma impact_run:
  "handler ascii_lower ((request None (Some ''A'') (Some 5) downstream)\<lparr>arg_impact := True\<rparr>)
      cycle_client default_config =
   (Inr \<lparr>root = \<lparr>root_name = JStr ''a'', root_class = JStr ''Server'', root_sys_id = JStr ''A''\<rparr>,
         relationships =
           [\<lparr>r_name = ''c'', r_class = JStr ''Server'', r_type = ''Runs on'',
               r_direction = upstream, r_sys_id = ''C'', r_depth = 1\<rparr>,
            \<lparr>r_name = ''b'', r_class = JStr ''Server'', r_type = ''Runs on'',
               r_direction = upstream, r_sys_id = ''B'', r_depth = 2\<rparr>,
            \<lparr>r_name = ''a'', r_class = JStr ''Server'', r_type = ''Runs on'',
               r_direction = upstream, r_sys_id = ''A'', r_depth = 3\<rparr>],
         meta = \<lparr>meta_depth = 5, meta_direction = upstream, meta_total = 3\<rparr>\<rparr>,
    [GetCi ''A'', QueryRel (JStr ''A''), GetClass ''C'', QueryRel (JStr ''C''),
     GetClass ''B'', QueryRel (JStr ''B'')])"
  by (simp add: eval_simps cycle_client_def)

theorem impact_forces_upstream_witness:
  "arg_impact ((request None (Some ''A'') (Some 5) downstream)\<lparr>arg_impact := True\<rparr>)
   \<and> effective_direction ((request None (Some ''A'') (Some 5) downstream)\<lparr>arg_impact := True\<rparr>) = upstream
   \<and> handler ascii_lower ((request None (Some ''A'') (Some 5) downstream)\<lparr>arg_impact := True\<rparr>)
        cycle_client default_config
      = handler ascii_lower (request None (Some ''A'') (Some 5) upstream) cycle_client default_config
   \<and> fst (handler ascii_lower (request None (Some ''A'') (Some 5) upstream) cycle_client default_config) =
      Inr \<lparr>root = \<lparr>root_name = JStr ''a'', root_class = JStr ''Server'', root_sys_id = JStr ''A''\<rparr>,
         relationships =
           [\<lparr>r_name = ''c'', r_class = JStr ''Server'', r_type = ''Runs on'',
               r_direction = upstream, r_sys_id = ''C'', r_depth = 1\<rparr>,
            \<lparr>r_name = ''b'', r_class = JStr ''Server'', r_type = ''Runs on'',
               r_direction = upstream, r_sys_id = ''B'', r_depth = 2\<rparr>,
            \<lparr>r_name = ''a'', r_class = JStr ''Server'', r_type = ''Runs on'',
               r_direction = upstream, r_sys_id = ''A'', r_depth = 3\<rparr>],
         meta = \<lparr>meta_depth = 5, meta_direction = upstream, meta_total = 3\<rparr>\<rparr>"
proof -
  let ?a = "(request None (Some ''A'') (Some 5) downstream)\<lparr>arg_impact := True\<rparr>"
  have i: "arg_impact ?a" by simp
  have e: "effective_direction ?a = upstream" by (simp add: effective_direction_def)
  have u: "?a\<lparr>arg_direction := upstream, arg_impact := False\<rparr>
      = request None (Some ''A'') (Some 5) upstream" by (simp add: request_def)
  have "handler ascii_lower ?a cycle_client default_config
      = handler ascii_lower (?a\<lparr>arg_direction := upstream, arg_impact := False\<rparr>) cycle_client
          default_config"
    using impact_forces_upstream [of ?a ascii_lower cycle_client default_config] i by blast
  then have "handler ascii_lower ?a cycle_client default_config
      = handler ascii_lower (request None (Some ''A'') (Some 5) upstream) cycle_client default_config"
    by (simp only: u)
  then show ?thesis using i e impact_run by (metis fst_conv)
qed

text \<open>
  C10. Every reported edge comes from a row of the node being expanded; its
  \<open>sys_id\<close> is the id of the other endpoint of that row, and its \<open>name\<close> is the
  display name of that endpoint, or the \<open>sys_id\<close> where the display name is empty.
  The display name of a bare string of 32 hexadecimal characters is empty, and on
  a store whose row names its endpoints by such strings the reported \<open>name\<close> is
  the other endpoint's \<open>sys_id\<close>.
\<close>

theorem name_falls_back_to_sys_id:
  "(handler lc a cl cfg = (Inr res, cs) \<longrightarrow>
      (\<forall>x\<in>set (relationships res). \<exists>cid r nm.
          r \<in> set (rows_of cl cid)
          \<and> classify (mk_env lc a cl cfg) cid r = Inr (Some (r_sys_id x, nm, r_direction x, r_type x))
          \<and> nm = extractDisplay (get_prop r (if r_direction x = downstream then ''child'' else ''parent''))
          \<and> r_sys_id x
              = extractValue (get_prop r (if r_direction x = downstream then ''child'' else ''parent''))
          \<and> r_name x = (if nm = [] then r_sys_id x else nm)))
   \<and> (hex32 h \<longrightarrow> extractDisplay (JStr h) = [] \<and> extractValue (JStr h) = h)
   \<and> (\<exists>root m cs'. handler ascii_lower (request None (Some ''0123456789abcdef0123456789abcdef'') (Some 1) both)
          bare_client default_config =
        (Inr \<lparr>root = root, relationships =
            [\<lparr>r_name = ''aaaaaaaaaaaaaaaaaaaaaaaaaaaaaaaa'', r_class = JStr ''Database'',
               r_type = ''Contains'', r_direction = downstream,
               r_sys_id = ''aaaaaaaaaaaaaaaaaaaaaaaaaaaaaaaa'', r_depth = 1\<rparr>], meta = m\<rparr>, cs'))"
proof -
  have a: "handler lc a cl cfg = (Inr res, cs) \<longrightarrow>
      (\<forall>x\<in>set (relationships res). \<exists>cid r nm.
          r \<in> set (rows_of cl cid)
          \<and> classify (mk_env lc a cl cfg) cid r = Inr (Some (r_sys_id x, nm, r_direction x, r_type x))
          \<and> nm = extractDisplay (get_prop r (if r_direction x = downstream then ''child'' else ''parent''))
          \<and> r_sys_id x
              = extractValue (get_prop r (if r_direction x = downstream then ''child'' else ''parent''))
          \<and> r_name x = (if nm = [] then r_sys_id x else nm))"
  proof
    assume h: "handler lc a cl cfg = (Inr res, cs)"
    show "\<forall>x\<in>set (relationships res). \<exists>cid r nm.
          r \<in> set (rows_of cl cid)
          \<and> classify (mk_env lc a cl cfg) cid r = Inr (Some (r_sys_id x, nm, r_direction x, r_type x))
          \<and> nm = extractDisplay (get_prop r (if r_direction x = downstream then ''child'' else ''parent''))
          \<and> r_sys_id x
              = extractValue (get_prop r (if r_direction x = downstream then ''child'' else ''parent''))
          \<and> r_name x = (if nm = [] then r_sys_id x else nm)"
    proof (rule handler_edges [OF h])
      fix cid d r oid nm dir ty cls
      assume r: "r \<in> set (rows_of cl cid)"
        and c: "classify (mk_env lc a cl cfg) cid r = Inr (Some (oid, nm, dir, ty))"
      let ?x = "mk_edge d cls (oid, nm, dir, ty)"
      have "dir = downstream \<or> dir = upstream"
        using classify_SomeD(2) [OF c] by (cases dir) auto
      then have "nm = extractDisplay (get_prop r (if dir = downstream then ''child'' else ''parent''))
          \<and> oid = extractValue (get_prop r (if dir = downstream then ''child'' else ''parent''))"
        using classify_SomeD(6,7) [OF c] by auto
      then show "\<exists>cid r nm'.
          r \<in> set (rows_of cl cid)
          \<and> classify (mk_env lc a cl cfg) cid r = Inr (Some (r_sys_id ?x, nm', r_direction ?x, r_type ?x))
          \<and> nm' = extractDisplay (get_prop r (if r_direction ?x = downstream then ''child'' else ''parent''))
          \<and> r_sys_id ?x
              = extractValue (get_prop r (if r_direction ?x = downstream then ''child'' else ''parent''))
          \<and> r_name ?x = (if nm' = [] then r_sys_id ?x else nm')"
        using r c by (intro exI [of _ cid] exI [of _ r] exI [of _ nm]) simp
    qed
  qed
  have b: "hex32 h \<longrightarrow> extractDisplay (JStr h) = [] \<and> extractValue (JStr h) = h"
    by (simp add: extractDisplay.simps extractValue.simps)
  show ?thesis using bare_run by (intro conjI a b) blast
qed

theorem name_falls_back_to_sys_id_witness:
  "hex32 ''aaaaaaaaaaaaaaaaaaaaaaaaaaaaaaaa''
   \<and> extractDisplay (JStr ''aaaaaaaaaaaaaaaaaaaaaaaaaaaaaaaa'') = []
   \<and> (\<exists>res cs. handler ascii_lower (request None (Some ''0123456789abcdef0123456789abcdef'') (Some 1) both)
          bare_client default_config = (Inr res, cs)
        \<and> map r_name (relationships res) = [''aaaaaaaaaaaaaaaaaaaaaaaaaaaaaaaa'']
        \<and> map r_sys_id (relationships res) = [''aaaaaaaaaaaaaaaaaaaaaaaaaaaaaaaa''])
   \<and> (\<exists>cid r nm.
          r \<in> set (rows_of bare_client cid)
          \<and> classify (mk_env ascii_lower (request None (Some ''0123456789abcdef0123456789abcdef'') (Some 1) both)
                bare_client default_config) cid r
              = Inr (Some (''aaaaaaaaaaaaaaaaaaaaaaaaaaaaaaaa'', nm, downstream, ''Contains''))
          \<and> nm = extractDisplay (get_prop r ''child'')
          \<and> ''aaaaaaaaaaaaaaaaaaaaaaaaaaaaaaaa'' = (if nm = [] then ''aaaaaaaaaaaaaaaaaaaaaaaaaaaaaaaa'' else nm))"
proof -
  let ?h = "''aaaaaaaaaaaaaaaaaaaaaaaaaaaaaaaa''"
  let ?a = "request None (Some ''0123456789abcdef0123456789abcdef'') (Some 1) both"
  let ?x = "\<lparr>r_name = ?h, r_class = JStr ''Database'', r_type = ''Contains'',
               r_direction = downstream, r_sys_id = ?h, r_depth = 1\<rparr>"
  let ?res = "\<lparr>root = \<lparr>root_name = JStr ''web01'', root_class = JStr ''Server'',
                   root_sys_id = JStr ''0123456789abcdef0123456789abcdef''\<rparr>,
          relationships = [?x],
          meta = \<lparr>meta_depth = 1, meta_direction = both, meta_total = 1\<rparr>\<rparr>"
  let ?cs = "[GetCi ''0123456789abcdef0123456789abcdef'',
      QueryRel (JStr ''0123456789abcdef0123456789abcdef''),
      GetClass ''aaaaaaaaaaaaaaaaaaaaaaaaaaaaaaaa'']"
  have hx: "hex32 ?h" by (simp add: hex32_def)
  have run: "handler ascii_lower ?a bare_client default_config = (Inr ?res, ?cs)" by (rule bare_run)
  note t = name_falls_back_to_sys_id [of ascii_lower ?a bare_client default_config ?res ?cs ?h]
  from t hx have d: "extractDisplay (JStr ?h) = []" by blast
  from t run have "\<forall>x\<in>set (relationships ?res). \<exists>cid r nm.
          r \<in> set (rows_of bare_client cid)
          \<and> classify (mk_env ascii_lower ?a bare_client default_config) cid r
               = Inr (Some (r_sys_id x, nm, r_direction x, r_type x))
          \<and> nm = extractDisplay (get_prop r (if r_direction x = downstream then ''child'' else ''parent''))
          \<and> r_sys_id x
              = extractValue (get_prop r (if r_direction x = downstream then ''child'' else ''parent''))
          \<and> r_name x = (if nm = [] then r_sys_id x else nm)"
    by blast
  then have inst: "\<exists>cid r nm.
          r \<in> set (rows_of bare_client cid)
          \<and> classify (mk_env ascii_lower ?a bare_client default_config) cid r
               = Inr (Some (r_sys_id ?x, nm, r_direction ?x, r_type ?x))
          \<and> nm = extractDisplay (get_prop r (if r_direction ?x = downstream then ''child'' else ''parent''))
          \<and> r_sys_id ?x
              = extractValue (get_prop r (if r_direction ?x = downstream then ''child'' else ''parent''))
          \<and> r_name ?x = (if nm = [] then r_sys_id ?x else nm)"
    by (rule bspec) simp
  have fields: "r_sys_id ?x = ?h" "r_direction ?x = downstream" "r_type ?x = ''Contains''"
    "r_name ?x = ?h" by simp_all
  from inst have "\<exists>cid r nm.
          r \<in> set (rows_of bare_client cid)
          \<and> classify (mk_env ascii_lower ?a bare_client default_config) cid r
              = Inr (Some (?h, nm, downstream, ''Contains''))
          \<and> nm = extractDisplay (get_prop r ''child'')
          \<and> ?h = extractValue (get_prop r ''child'')
          \<and> ?h = (if nm = [] then ?h else nm)"
    by (simp only: fields simp_thms if_True)
  then have e: "\<exists>cid r nm.
          r \<in> set (rows_of bare_client cid)
          \<and> classify (mk_env ascii_lower ?a bare_client default_config) cid r
              = Inr (Some (?h, nm, downstream, ''Contains''))
          \<and> nm = extractDisplay (get_prop r ''child'')
          \<and> ?h = (if nm = [] then ?h else nm)"
    by blast
  have "\<exists>res cs. handler ascii_lower ?a bare_client default_config = (Inr res, cs)
        \<and> map r_name (relationships res) = [?h]
        \<and> map r_sys_id (relationships res) = [?h]"
    using run by simp
  then show ?thesis using hx d e by blast
qed

section \<open>The edges of one expansion\<close>

lemma shown_simps [simp]:
  "shown e K d [] = []"
  "shown e K d (t # ts) =
     (if class_shown (toLowerCase e) (arg_class (args e)) (K (fst t)) = Inr True
      then [mk_edge d (K (fst t)) t] else [])
     @ shown e K d ts"
  by (simp_all add: shown_def)

lemma cached_class_log [simp]:
  "cached_class e (s\<lparr>calls := cs\<rparr>) = cached_class e s"
  by (simp add: cached_class_def fun_eq_iff)

lemma cached_class_update:
  assumes "classCache s2 = (classCache s)(JStr oid \<mapsto> cached_class e s oid)"
  shows "cached_class e s2 = cached_class e s"
  using assms by (auto simp: cached_class_def fun_eq_iff)

lemma cached_class_row_step:
  assumes "row_step e cid d r seen s = Go seen' s2 nxt"
  shows "cached_class e s2 = cached_class e s"
  using assms by (rule row_step_GoE) (rule cached_class_update)

lemma cached_class_raise:
  assumes "row_step e cid d r seen s = Raise te s'"
  shows "cached_class e s' = cached_class e s"
  using assms
proof (rule row_step_RaiseE)
  assume "s' = s"
  then show ?thesis by simp
next
  fix oid nm dir ty
  assume "classCache s' = (classCache s)(JStr oid \<mapsto> cached_class e s oid)"
  then show ?thesis by (rule cached_class_update)
qed

lemma accepted_skip:
  "row_step e cid d r seen s = Skip \<Longrightarrow> accepted e cid (r # rs) seen = accepted e cid rs seen"
  by (auto simp: row_step_Skip_iff split: option.splits sum.splits)

lemma own_edges_traverse:
  "\<exists>new. allRels (final (traverse e cid d s)) = allRels s @ new \<and> (\<forall>x\<in>set new. d \<le> r_depth x)
      \<and> cached_class e (final (traverse e cid d s)) = cached_class e s"
  and own_edges_loop:
  "\<exists>new. allRels (final (loop e cid d recs seen s)) = allRels s @ new
      \<and> (\<forall>x\<in>set new. d \<le> r_depth x)
      \<and> prefix (filter (\<lambda>x. r_depth x = d) new)
          (shown e (cached_class e s) d (accepted e cid recs seen))
      \<and> ((\<exists>s'. loop e cid d recs seen s = Done s') \<longrightarrow>
           filter (\<lambda>x. r_depth x = d) new
             = shown e (cached_class e s) d (accepted e cid recs seen))
      \<and> cached_class e (final (loop e cid d recs seen s)) = cached_class e s"
proof (induction cid d s and cid d recs seen s rule: traverse_loop_induct [where e = e])
  case (too_deep cid d s)
  then show ?case by (simp add: traverse_too_deep)
next
  case (threw cid d s m)
  then show ?case by (simp add: traverse_threw)
next
  case (bad cid d s b te)
  then show ?case by (simp add: traverse_bad)
next
  case (rows cid d s b recs)
  then show ?case by (auto simp add: traverse_rows)
next
  case (Nil cid d seen s)
  show ?case by simp
next
  case (skip cid d r rs seen s)
  then show ?case by (simp add: loop_skip accepted_skip del: accepted.simps)
next
  case (raise cid d r rs seen s te s')
  from raise have "allRels s' = allRels s" by (rule row_step_RaiseE) simp_all
  then show ?case using raise cached_class_raise [OF raise] by (simp add: loop_raise)
next
  case (stay cid d r rs seen s seen' s2)
  let ?K = "cached_class e s"
  from stay(2) obtain new where new: "allRels (final (loop e cid d rs seen' s2)) = allRels s2 @ new"
    "\<forall>x\<in>set new. d \<le> r_depth x"
    "prefix (filter (\<lambda>x. r_depth x = d) new)
       (shown e (cached_class e s2) d (accepted e cid rs seen'))"
    "(\<exists>s'. loop e cid d rs seen' s2 = Done s') \<longrightarrow>
       filter (\<lambda>x. r_depth x = d) new = shown e (cached_class e s2) d (accepted e cid rs seen')"
    "cached_class e (final (loop e cid d rs seen' s2)) = cached_class e s2" by blast
  have K: "cached_class e s2 = ?K" using stay(1) by (rule cached_class_row_step)
  have l: "loop e cid d (r # rs) seen s = loop e cid d rs seen' s2"
    using stay(1) by (rule loop_stay)
  from stay(1) show ?case
  proof (rule row_step_GoE)
    fix oid nm dir ty b
    assume c: "classify e cid r = Inr (Some (oid, nm, dir, ty))" and k: "pairKey oid dir \<notin> seen"
      and seen': "seen' = insert (pairKey oid dir) seen"
      and b: "class_shown (toLowerCase e) (arg_class (args e)) (?K oid) = Inr b"
      and rels: "allRels s2 = allRels s @
         (if b then [mk_edge d (?K oid) (oid, nm, dir, ty)] else [])"
    let ?e1 = "if b then [mk_edge d (?K oid) (oid, nm, dir, ty)] else []"
    have acc: "accepted e cid (r # rs) seen = (oid, nm, dir, ty) # accepted e cid rs seen'"
      using c k seen' by simp
    have sh: "shown e ?K d (accepted e cid (r # rs) seen)
        = ?e1 @ shown e ?K d (accepted e cid rs seen')"
      unfolding acc using b by simp
    have f1: "filter (\<lambda>x. r_depth x = d) ?e1 = ?e1" by simp
    have "allRels (final (loop e cid d (r # rs) seen s)) = allRels s @ (?e1 @ new)"
      using new(1) rels l by simp
    moreover have "\<forall>x\<in>set (?e1 @ new). d \<le> r_depth x" using new(2) by auto
    moreover have "prefix (filter (\<lambda>x. r_depth x = d) (?e1 @ new))
        (shown e ?K d (accepted e cid (r # rs) seen))"
      unfolding sh filter_append f1 using new(3) K by simp
    moreover have "(\<exists>s'. loop e cid d (r # rs) seen s = Done s') \<longrightarrow>
        filter (\<lambda>x. r_depth x = d) (?e1 @ new) = shown e ?K d (accepted e cid (r # rs) seen)"
      unfolding sh filter_append f1 l using new(4) K by simp
    moreover have "cached_class e (final (loop e cid d (r # rs) seen s)) = ?K"
      using new(5) K l by simp
    ultimately show ?thesis by blast
  qed
next
  case (recurse cid d r rs seen s seen' s2 oid')
  let ?K = "cached_class e s"
  let ?t = "traverse e (JStr oid') (d + 1) s2"
  have K: "cached_class e s2 = ?K" using recurse(1) by (rule cached_class_row_step)
  from recurse(2) obtain new3 where new3: "allRels (final ?t) = allRels s2 @ new3"
    "\<forall>x\<in>set new3. d + 1 \<le> r_depth x" "cached_class e (final ?t) = cached_class e s2" by blast
  have deep: "filter (\<lambda>x. r_depth x = d) new3 = []"
    using new3(2) by (auto simp: filter_empty_conv)
  from recurse(1) show ?case
  proof (rule row_step_GoE)
    fix oid nm dir ty b
    assume c: "classify e cid r = Inr (Some (oid, nm, dir, ty))" and k: "pairKey oid dir \<notin> seen"
      and seen': "seen' = insert (pairKey oid dir) seen"
      and b: "class_shown (toLowerCase e) (arg_class (args e)) (?K oid) = Inr b"
      and rels: "allRels s2 = allRels s @
         (if b then [mk_edge d (?K oid) (oid, nm, dir, ty)] else [])"
    let ?e1 = "if b then [mk_edge d (?K oid) (oid, nm, dir, ty)] else []"
    have acc: "accepted e cid (r # rs) seen = (oid, nm, dir, ty) # accepted e cid rs seen'"
      using c k seen' by simp
    have sh: "shown e ?K d (accepted e cid (r # rs) seen)
        = ?e1 @ shown e ?K d (accepted e cid rs seen')"
      unfolding acc using b by simp
    have f1: "filter (\<lambda>x. r_depth x = d) ?e1 = ?e1" by simp
    show ?thesis
    proof (cases ?t)
      case (Raised te s3)
      have l: "loop e cid d (r # rs) seen s = Raised te s3"
        using recurse(1) Raised by (rule loop_recurse_raised)
      have "allRels (final (loop e cid d (r # rs) seen s)) = allRels s @ (?e1 @ new3)"
        using new3(1) rels l Raised by simp
      moreover have "\<forall>x\<in>set (?e1 @ new3). d \<le> r_depth x" using new3(2) by auto
      moreover have "prefix (filter (\<lambda>x. r_depth x = d) (?e1 @ new3))
          (shown e ?K d (accepted e cid (r # rs) seen))"
        unfolding sh filter_append f1 deep by simp
      moreover have "(\<exists>s'. loop e cid d (r # rs) seen s = Done s') \<longrightarrow>
          filter (\<lambda>x. r_depth x = d) (?e1 @ new3) = shown e ?K d (accepted e cid (r # rs) seen)"
        using l by simp
      moreover have "cached_class e (final (loop e cid d (r # rs) seen s)) = ?K"
        using new3(3) K l Raised by simp
      ultimately show ?thesis by blast
    next
      case (Done s3)
      have l: "loop e cid d (r # rs) seen s = loop e cid d rs seen' s3"
        using recurse(1) Done by (rule loop_recurse_done)
      have K3: "cached_class e s3 = ?K" using new3(3) K Done by simp
      from recurse(3) [OF Done] obtain new where
        new: "allRels (final (loop e cid d rs seen' s3)) = allRels s3 @ new"
        "\<forall>x\<in>set new. d \<le> r_depth x"
        "prefix (filter (\<lambda>x. r_depth x = d) new)
           (shown e (cached_class e s3) d (accepted e cid rs seen'))"
        "(\<exists>s'. loop e cid d rs seen' s3 = Done s') \<longrightarrow>
           filter (\<lambda>x. r_depth x = d) new = shown e (cached_class e s3) d (accepted e cid rs seen')"
        "cached_class e (final (loop e cid d rs seen' s3)) = cached_class e s3" by blast
      have "allRels (final (loop e cid d (r # rs) seen s)) = allRels s @ (?e1 @ new3 @ new)"
        using new(1) new3(1) rels l Done by simp
      moreover have "\<forall>x\<in>set (?e1 @ new3 @ new). d \<le> r_depth x" using new(2) new3(2) by auto
      moreover have "prefix (filter (\<lambda>x. r_depth x = d) (?e1 @ new3 @ new))
          (shown e ?K d (accepted e cid (r # rs) seen))"
        unfolding sh filter_append f1 deep using new(3) K3 by simp
      moreover have "(\<exists>s'. loop e cid d (r # rs) seen s = Done s') \<longrightarrow>
          filter (\<lambda>x. r_depth x = d) (?e1 @ new3 @ new)
            = shown e ?K d (accepted e cid (r # rs) seen)"
        unfolding sh filter_append f1 deep l using new(4) K3 by simp
      moreover have "cached_class e (final (loop e cid d (r # rs) seen s)) = ?K"
        using new(5) K3 l by simp
      ultimately show ?thesis by blast
    qed
  qed
qed

lemma new_edges_traverse:
  "allRels (final (traverse e cid d s)) = allRels s @ new_edges s (final (traverse e cid d s))"
  "\<forall>x\<in>set (new_edges s (final (traverse e cid d s))). d \<le> r_depth x"
  using own_edges_traverse [of e cid d s] by (auto simp: new_edges_def)

lemma own_edges:
  assumes "d \<le> maxDepth e"
  shows "prefix (filter (\<lambda>x. r_depth x = d) (new_edges s (final (traverse e cid d s))))
       (shown e (cached_class e s) d (accepted e cid (rows_of (client e) cid) {}))"
    and "(\<exists>s'. traverse e cid d s = Done s') \<longrightarrow>
       filter (\<lambda>x. r_depth x = d) (new_edges s (final (traverse e cid d s)))
       = shown e (cached_class e s) d (accepted e cid (rows_of (client e) cid) {})"
proof -
  let ?s0 = "s\<lparr>calls := calls s @ [QueryRel cid]\<rparr>"
  have "prefix (filter (\<lambda>x. r_depth x = d) (new_edges s (final (traverse e cid d s))))
       (shown e (cached_class e s) d (accepted e cid (rows_of (client e) cid) {}))
    \<and> ((\<exists>s'. traverse e cid d s = Done s') \<longrightarrow>
       filter (\<lambda>x. r_depth x = d) (new_edges s (final (traverse e cid d s)))
       = shown e (cached_class e s) d (accepted e cid (rows_of (client e) cid) {}))"
  proof (cases "query_rel (client e) cid")
    case (Threw m)
    then show ?thesis using assms by (simp add: traverse_threw new_edges_def rows_of_def)
  next
    case (Reply b)
    show ?thesis
    proof (cases "records_of b")
      case (Inl te)
      then show ?thesis using assms Reply by (simp add: traverse_bad new_edges_def rows_of_def)
    next
      case (Inr recs)
      obtain new where new: "allRels (final (loop e cid d recs {} ?s0)) = allRels ?s0 @ new"
        "prefix (filter (\<lambda>x. r_depth x = d) new)
           (shown e (cached_class e ?s0) d (accepted e cid recs {}))"
        "(\<exists>s'. loop e cid d recs {} ?s0 = Done s') \<longrightarrow>
           filter (\<lambda>x. r_depth x = d) new = shown e (cached_class e ?s0) d (accepted e cid recs {})"
        using own_edges_loop [of e cid d recs "{}" ?s0] by blast
      then show ?thesis using assms Reply Inr
        by (simp add: traverse_rows new_edges_def rows_of_def)
    qed
  qed
  then show "prefix (filter (\<lambda>x. r_depth x = d) (new_edges s (final (traverse e cid d s))))
       (shown e (cached_class e s) d (accepted e cid (rows_of (client e) cid) {}))"
    and "(\<exists>s'. traverse e cid d s = Done s') \<longrightarrow>
       filter (\<lambda>x. r_depth x = d) (new_edges s (final (traverse e cid d s)))
       = shown e (cached_class e s) d (accepted e cid (rows_of (client e) cid) {})"
    by simp_all
qed

section \<open>The rows recorded by one expansion\<close>

lemma key_of_simp [simp]: "key_of (oid, nm, dir, ty) = pairKey oid dir"
  by (simp add: key_of_def)

lemma pairKey_inject:
  assumes "pairKey oid dir = pairKey oid' dir'" "dir \<noteq> both" "dir' \<noteq> both"
  shows "oid = oid' \<and> dir = dir'"
proof -
  have r: "rev (dir_str dir) @ CHR '':'' # rev oid = rev (dir_str dir') @ CHR '':'' # rev oid'"
    using arg_cong [OF assms(1), of rev] by (simp add: pairKey_def)
  have "dir = dir'"
  proof (rule ccontr)
    assume "dir \<noteq> dir'"
    then have "(dir = upstream \<and> dir' = downstream) \<or> (dir = downstream \<and> dir' = upstream)"
      using assms(2,3) by (cases dir; cases dir') auto
    then show False using r by auto
  qed
  then show ?thesis using assms(1) by (simp add: pairKey_def)
qed

lemma accepted_cases [case_names raised skipped seen fresh]:
  obtains te where "classify e cid r = Inl te" "accepted e cid (r # rs) seen = []"
  | "classify e cid r = Inr None" "accepted e cid (r # rs) seen = accepted e cid rs seen"
  | u where "classify e cid r = Inr (Some u)" "key_of u \<in> seen"
      "accepted e cid (r # rs) seen = accepted e cid rs seen"
  | u where "classify e cid r = Inr (Some u)" "key_of u \<notin> seen"
      "accepted e cid (r # rs) seen = u # accepted e cid rs (insert (key_of u) seen)"
proof (cases "classify e cid r")
  case (Inl te)
  then show ?thesis using that(1) by simp
next
  case (Inr x)
  show ?thesis
  proof (cases x)
    case None
    then show ?thesis using Inr that(2) by simp
  next
    case (Some u)
    obtain oid nm dir ty where u: "u = (oid, nm, dir, ty)" by (cases u) auto
    show ?thesis
    proof (cases "key_of u \<in> seen")
      case True
      then show ?thesis using Inr Some u that(3) [of u] by simp
    next
      case False
      then show ?thesis using Inr Some u that(4) [of u] by simp
    qed
  qed
qed

lemma accepted_not_seen:
  "\<forall>t\<in>set (accepted e cid recs seen). key_of t \<notin> seen"
proof (induction recs arbitrary: seen)
  case Nil
  show ?case by simp
next
  case (Cons r rs)
  show ?case
  proof (cases rule: accepted_cases [of e cid r rs seen])
    case (raised te)
    then show ?thesis by simp
  next
    case skipped
    then show ?thesis using Cons [of seen] by simp
  next
    case (seen u)
    then show ?thesis using Cons [of seen] by simp
  next
    case (fresh u)
    then show ?thesis using Cons [of "insert (key_of u) seen"] by simp
  qed
qed

lemma accepted_keys:
  "t \<in> set (accepted e cid recs seen) \<Longrightarrow> key_of t \<notin> seen"
  using accepted_not_seen by blast

lemma accepted_distinct:
  "distinct (map key_of (accepted e cid recs seen))"
proof (induction recs arbitrary: seen)
  case Nil
  show ?case by simp
next
  case (Cons r rs)
  show ?case
  proof (cases rule: accepted_cases [of e cid r rs seen])
    case (raised te)
    then show ?thesis by simp
  next
    case skipped
    then show ?thesis using Cons [of seen] by simp
  next
    case (seen u)
    then show ?thesis using Cons [of seen] by simp
  next
    case (fresh u)
    have "key_of u \<notin> key_of ` set (accepted e cid rs (insert (key_of u) seen))"
      using accepted_not_seen [of e cid rs "insert (key_of u) seen"] by auto
    then show ?thesis using Cons [of "insert (key_of u) seen"] fresh by simp
  qed
qed

lemma accepted_first:
  "t \<in> set (accepted e cid recs seen) \<Longrightarrow>
     \<exists>i<length recs. classify e cid (recs ! i) = Inr (Some t)
        \<and> (\<forall>j<i. \<forall>u. classify e cid (recs ! j) = Inr (Some u) \<longrightarrow> key_of u \<noteq> key_of t)"
proof (induction recs arbitrary: seen)
  case Nil
  then show ?case by simp
next
  case (Cons r rs)
  have step: "\<exists>i<length (r # rs). classify e cid ((r # rs) ! i) = Inr (Some t)
        \<and> (\<forall>j<i. \<forall>u. classify e cid ((r # rs) ! j) = Inr (Some u) \<longrightarrow> key_of u \<noteq> key_of t)"
    if t: "t \<in> set (accepted e cid rs seen')"
      and hd: "\<forall>u. classify e cid r = Inr (Some u) \<longrightarrow> key_of u \<noteq> key_of t" for seen'
  proof -
    from Cons.IH [OF t] obtain i where i: "i < length rs" "classify e cid (rs ! i) = Inr (Some t)"
      "\<forall>j<i. \<forall>u. classify e cid (rs ! j) = Inr (Some u) \<longrightarrow> key_of u \<noteq> key_of t" by blast
    have "\<forall>j<Suc i. \<forall>u. classify e cid ((r # rs) ! j) = Inr (Some u) \<longrightarrow> key_of u \<noteq> key_of t"
      using i(3) hd by (auto simp: nth_Cons split: nat.splits)
    then show ?thesis using i(1,2) by (intro exI [of _ "Suc i"]) simp
  qed
  show ?case
  proof (cases rule: accepted_cases [of e cid r rs seen])
    case (raised te)
    then show ?thesis using Cons.prems by simp
  next
    case skipped
    then show ?thesis using Cons.prems step [of seen] by simp
  next
    case (seen u)
    then have t: "t \<in> set (accepted e cid rs seen)" using Cons.prems by simp
    then have "key_of u \<noteq> key_of t" using accepted_keys [OF t] seen(2) by auto
    then show ?thesis using step [OF t] seen(1) by simp
  next
    case (fresh u)
    show ?thesis
    proof (cases "t = u")
      case True
      then show ?thesis using fresh(1) by (intro exI [of _ 0]) simp
    next
      case False
      from Cons.prems have "t \<in> set (u # accepted e cid rs (insert (key_of u) seen))"
        by (simp only: fresh(3))
      then have t: "t \<in> set (accepted e cid rs (insert (key_of u) seen))"
        using False by simp
      then have "key_of u \<noteq> key_of t" using accepted_keys [OF t] by auto
      then show ?thesis using step [OF t] fresh(1) by simp
    qed
  qed
qed

lemma shown_subset:
  "x \<in> set (shown e K d ts) \<Longrightarrow> \<exists>t\<in>set ts. x = mk_edge d (K (fst t)) t"
  by (auto simp: shown_def)

lemma distinct_shown:
  assumes "distinct (map key_of ts)"
  shows "distinct (map (\<lambda>x. (r_sys_id x, r_direction x)) (shown e K d ts))"
proof -
  let ?P = "\<lambda>t. class_shown (toLowerCase e) (arg_class (args e)) (K (fst t)) = Inr True"
  have "map (\<lambda>x. (r_sys_id x, r_direction x)) (shown e K d ts)
      = map (\<lambda>t. (fst t, fst (snd (snd t)))) (filter ?P ts)"
    by (simp add: shown_def mk_edge_def split: prod.splits)
  moreover have "distinct (map key_of (filter ?P ts))"
    using assms by (rule distinct_map_filter)
  then have "distinct (map (\<lambda>t. (fst t, fst (snd (snd t)))) (filter ?P ts))"
  proof (rule contrapos_pp)
    assume "\<not> distinct (map (\<lambda>t. (fst t, fst (snd (snd t)))) (filter ?P ts))"
    then have "\<not> distinct (map ((\<lambda>p. pairKey (fst p) (snd p)) \<circ> (\<lambda>t. (fst t, fst (snd (snd t)))))
        (filter ?P ts))"
      using distinct_map by (metis (no_types, lifting) map_map distinct_map)
    moreover have "(\<lambda>p. pairKey (fst p) (snd p)) \<circ> (\<lambda>t. (fst t, fst (snd (snd t)))) = key_of"
      by (auto simp: key_of_def fun_eq_iff)
    ultimately show "\<not> distinct (map key_of (filter ?P ts))"
      by simp
  qed
  ultimately show ?thesis by simp
qed

lemma distinct_map_prefix:
  "prefix xs ys \<Longrightarrow> distinct (map f ys) \<Longrightarrow> distinct (map f xs)"
  by (auto simp: prefix_def)

lemma parallel_run:
  "handler ascii_lower (request None (Some ''R'') (Some 2) both) parallel_client default_config =
   (Inr \<lparr>root = \<lparr>root_name = JStr ''r'', root_class = JStr ''Router'', root_sys_id = JStr ''R''\<rparr>,
         relationships =
           [\<lparr>r_name = ''b'', r_class = JStr ''Switch'', r_type = ''Runs on'',
               r_direction = downstream, r_sys_id = ''B'', r_depth = 1\<rparr>,
            \<lparr>r_name = ''r'', r_class = JStr ''Router'', r_type = ''Runs on'',
               r_direction = upstream, r_sys_id = ''R'', r_depth = 2\<rparr>,
            \<lparr>r_name = ''c'', r_class = JStr ''Server'', r_type = ''Contains'',
               r_direction = downstream, r_sys_id = ''C'', r_depth = 2\<rparr>,
            \<lparr>r_name = ''c'', r_class = JStr ''Server'', r_type = ''Contains'',
               r_direction = downstream, r_sys_id = ''C'', r_depth = 1\<rparr>,
            \<lparr>r_name = ''b'', r_class = JStr ''Switch'', r_type = ''Contains'',
               r_direction = upstream, r_sys_id = ''B'', r_depth = 2\<rparr>,
            \<lparr>r_name = ''r'', r_class = JStr ''Router'', r_type = ''Contains'',
               r_direction = upstream, r_sys_id = ''R'', r_depth = 2\<rparr>],
         meta = \<lparr>meta_depth = 2, meta_direction = both, meta_total = 6\<rparr>\<rparr>,
    [GetCi ''R'', QueryRel (JStr ''R''), GetClass ''B'', QueryRel (JStr ''B''),
     GetClass ''C'', QueryRel (JStr ''C'')])"
  by (simp add: eval_simps parallel_client_def)

lemma own_edges_first:
  assumes "d \<le> maxDepth e"
    and x: "x \<in> set (filter (\<lambda>x. r_depth x = d) (new_edges s (final (traverse e cid d s))))"
  shows "\<exists>i<length (rows_of (client e) cid).
           (\<exists>nm. classify e cid (rows_of (client e) cid ! i)
                   = Inr (Some (r_sys_id x, nm, r_direction x, r_type x)))
           \<and> (\<forall>j<i. \<forall>nm ty. classify e cid (rows_of (client e) cid ! j)
                   \<noteq> Inr (Some (r_sys_id x, nm, r_direction x, ty)))"
proof -
  let ?rows = "rows_of (client e) cid"
  from x have "x \<in> set (shown e (cached_class e s) d (accepted e cid ?rows {}))"
    using own_edges(1) [OF assms(1), of s cid] set_mono_prefix by blast
  then obtain t where t: "t \<in> set (accepted e cid ?rows {})"
    "x = mk_edge d (cached_class e s (fst t)) t" using shown_subset by blast
  obtain oid nm dir ty where t4: "t = (oid, nm, dir, ty)" by (cases t) auto
  from accepted_first [OF t(1)] obtain i where i: "i < length ?rows"
    "classify e cid (?rows ! i) = Inr (Some t)"
    "\<forall>j<i. \<forall>u. classify e cid (?rows ! j) = Inr (Some u) \<longrightarrow> key_of u \<noteq> key_of t" by blast
  have f: "r_sys_id x = oid" "r_direction x = dir" "r_type x = ty" using t(2) t4 by simp_all
  have "\<forall>j<i. \<forall>nm' ty'. classify e cid (?rows ! j) \<noteq> Inr (Some (oid, nm', dir, ty'))"
    using i(3) t4 by fastforce
  then show ?thesis using i(1,2) t4 f by (intro exI [of _ i]) auto
qed

section \<open>Deduplication within one expansion\<close>

text \<open>
  C5. The edges that a call of \<open>traverse\<close> for a node at depth \<open>d\<close> adds to the
  result with depth \<open>d\<close> are the edges of the expansion of that node itself (the
  expansions nested in it add edges of greater depth): those of the decoded rows
  of the node that pass the direction and type filters and whose key is new, in
  order, all of them when the call returns and a first part of them when an
  exception leaves it. Among them no pair of \<open>sys_id\<close> and direction occurs
  twice, and each carries the type of the first row of the node that decodes to
  that pair and passes the direction and type filters. The keys of the \<open>seen\<close>
  set stand for these pairs one to one. The set starts empty for every node: on
  the store with two parallel rows from R to B and C below both R and B, the edge
  to B is reported once, with the type of the first row, and the downstream edge
  to C is reported from B and again from R.
\<close>

theorem per_expansion_dedup:
  "(d \<le> maxDepth e \<longrightarrow>
      prefix (filter (\<lambda>x. r_depth x = d) (new_edges s (final (traverse e cid d s))))
        (shown e (cached_class e s) d (accepted e cid (rows_of (client e) cid) {}))
      \<and> ((\<exists>s'. traverse e cid d s = Done s') \<longrightarrow>
           filter (\<lambda>x. r_depth x = d) (new_edges s (final (traverse e cid d s)))
             = shown e (cached_class e s) d (accepted e cid (rows_of (client e) cid) {}))
      \<and> distinct (map (\<lambda>x. (r_sys_id x, r_direction x))
            (filter (\<lambda>x. r_depth x = d) (new_edges s (final (traverse e cid d s)))))
      \<and> (\<forall>x\<in>set (filter (\<lambda>x. r_depth x = d) (new_edges s (final (traverse e cid d s)))).
           \<exists>i<length (rows_of (client e) cid).
             (\<exists>nm. classify e cid (rows_of (client e) cid ! i)
                     = Inr (Some (r_sys_id x, nm, r_direction x, r_type x)))
             \<and> (\<forall>j<i. \<forall>nm ty. classify e cid (rows_of (client e) cid ! j)
                     \<noteq> Inr (Some (r_sys_id x, nm, r_direction x, ty)))))
   \<and> allRels (final (traverse e cid d s)) = allRels s @ new_edges s (final (traverse e cid d s))
   \<and> (\<forall>x\<in>set (new_edges s (final (traverse e cid d s))). d \<le> r_depth x)
   \<and> (dir \<noteq> both \<and> dir' \<noteq> both \<and> pairKey oid dir = pairKey oid' dir' \<longrightarrow>
        oid = oid' \<and> dir = dir')
   \<and> map (\<lambda>x. (r_sys_id x, r_direction x, r_type x, r_depth x))
        (case fst (handler ascii_lower (request None (Some ''R'') (Some 2) both) parallel_client
                    default_config) of
           Inl m \<Rightarrow> [] | Inr res \<Rightarrow> relationships res)
      = [(''B'', downstream, ''Runs on'', 1), (''R'', upstream, ''Runs on'', 2),
         (''C'', downstream, ''Contains'', 2), (''C'', downstream, ''Contains'', 1),
         (''B'', upstream, ''Contains'', 2), (''R'', upstream, ''Contains'', 2)]"
proof -
  let ?own = "filter (\<lambda>x. r_depth x = d) (new_edges s (final (traverse e cid d s)))"
  let ?all = "shown e (cached_class e s) d (accepted e cid (rows_of (client e) cid) {})"
  have a: "d \<le> maxDepth e \<longrightarrow>
      prefix ?own ?all
      \<and> ((\<exists>s'. traverse e cid d s = Done s') \<longrightarrow> ?own = ?all)
      \<and> distinct (map (\<lambda>x. (r_sys_id x, r_direction x)) ?own)
      \<and> (\<forall>x\<in>set ?own.
           \<exists>i<length (rows_of (client e) cid).
             (\<exists>nm. classify e cid (rows_of (client e) cid ! i)
                     = Inr (Some (r_sys_id x, nm, r_direction x, r_type x)))
             \<and> (\<forall>j<i. \<forall>nm ty. classify e cid (rows_of (client e) cid ! j)
                     \<noteq> Inr (Some (r_sys_id x, nm, r_direction x, ty))))"
  proof
    assume d: "d \<le> maxDepth e"
    have 1: "prefix ?own ?all" by (rule own_edges(1) [OF d])
    have 2: "(\<exists>s'. traverse e cid d s = Done s') \<longrightarrow> ?own = ?all" by (rule own_edges(2) [OF d])
    have "distinct (map (\<lambda>x. (r_sys_id x, r_direction x)) ?all)"
      by (rule distinct_shown) (rule accepted_distinct)
    with 1 have 3: "distinct (map (\<lambda>x. (r_sys_id x, r_direction x)) ?own)"
      by (rule distinct_map_prefix)
    have 4: "\<forall>x\<in>set ?own.
           \<exists>i<length (rows_of (client e) cid).
             (\<exists>nm. classify e cid (rows_of (client e) cid ! i)
                     = Inr (Some (r_sys_id x, nm, r_direction x, r_type x)))
             \<and> (\<forall>j<i. \<forall>nm ty. classify e cid (rows_of (client e) cid ! j)
                     \<noteq> Inr (Some (r_sys_id x, nm, r_direction x, ty)))"
      using own_edges_first [OF d] by blast
    show "prefix ?own ?all
      \<and> ((\<exists>s'. traverse e cid d s = Done s') \<longrightarrow> ?own = ?all)
      \<and> distinct (map (\<lambda>x. (r_sys_id x, r_direction x)) ?own)
      \<and> (\<forall>x\<in>set ?own.
           \<exists>i<length (rows_of (client e) cid).
             (\<exists>nm. classify e cid (rows_of (client e) cid ! i)
                     = Inr (Some (r_sys_id x, nm, r_direction x, r_type x)))
             \<and> (\<forall>j<i. \<forall>nm ty. classify e cid (rows_of (client e) cid ! j)
                     \<noteq> Inr (Some (r_sys_id x, nm, r_direction x, ty))))"
      using 1 2 3 4 by (intro conjI)
  qed
  have b: "dir \<noteq> both \<and> dir' \<noteq> both \<and> pairKey oid dir = pairKey oid' dir' \<longrightarrow>
        oid = oid' \<and> dir = dir'"
    using pairKey_inject by blast
  have c: "map (\<lambda>x. (r_sys_id x, r_direction x, r_type x, r_depth x))
        (case fst (handler ascii_lower (request None (Some ''R'') (Some 2) both) parallel_client
                    default_config) of
           Inl m \<Rightarrow> [] | Inr res \<Rightarrow> relationships res)
      = [(''B'', downstream, ''Runs on'', 1), (''R'', upstream, ''Runs on'', 2),
         (''C'', downstream, ''Contains'', 2), (''C'', downstream, ''Contains'', 1),
         (''B'', upstream, ''Contains'', 2), (''R'', upstream, ''Contains'', 2)]"
    by (simp add: parallel_run)
  show ?thesis by (intro conjI a b c new_edges_traverse)
qed

lemma parallel_root_expansion:
  "traverse (mk_env ascii_lower (request None (Some ''R'') (Some 2) both) parallel_client default_config)
     (JStr ''R'') 1 (init_state (JStr ''R'') (JStr ''Router'') [GetCi ''R''])
   = Done \<lparr>visited = {JStr ''R'', JStr ''B'', JStr ''C''},
       classCache = [JStr ''R'' \<mapsto> JStr ''Router'', JStr ''B'' \<mapsto> JStr ''Switch'',
                     JStr ''C'' \<mapsto> JStr ''Server''],
       allRels =
           [\<lparr>r_name = ''b'', r_class = JStr ''Switch'', r_type = ''Runs on'',
               r_direction = downstream, r_sys_id = ''B'', r_depth = 1\<rparr>,
            \<lparr>r_name = ''r'', r_class = JStr ''Router'', r_type = ''Runs on'',
               r_direction = upstream, r_sys_id = ''R'', r_depth = 2\<rparr>,
            \<lparr>r_name = ''c'', r_class = JStr ''Server'', r_type = ''Contains'',
               r_direction = downstream, r_sys_id = ''C'', r_depth = 2\<rparr>,
            \<lparr>r_name = ''c'', r_class = JStr ''Server'', r_type = ''Contains'',
               r_direction = downstream, r_sys_id = ''C'', r_depth = 1\<rparr>,
            \<lparr>r_name = ''b'', r_class = JStr ''Switch'', r_type = ''Contains'',
               r_direction = upstream, r_sys_id = ''B'', r_depth = 2\<rparr>,
            \<lparr>r_name = ''r'', r_class = JStr ''Router'', r_type = ''Contains'',
               r_direction = upstream, r_sys_id = ''R'', r_depth = 2\<rparr>],
       calls = [GetCi ''R'', QueryRel (JStr ''R''), GetClass ''B'', QueryRel (JStr ''B''),
                GetClass ''C'', QueryRel (JStr ''C'')]\<rparr>"
  by (simp add: eval_simps parallel_client_def insert_commute fun_upd_twist)

theorem per_expansion_dedup_witness:
  "1 \<le> maxDepth (mk_env ascii_lower (request None (Some ''R'') (Some 2) both) parallel_client default_config)
   \<and> distinct (map (\<lambda>x. (r_sys_id x, r_direction x)) (filter (\<lambda>x. r_depth x = 1)
       (new_edges (init_state (JStr ''R'') (JStr ''Router'') [GetCi ''R''])
          (final (traverse (mk_env ascii_lower (request None (Some ''R'') (Some 2) both) parallel_client
             default_config) (JStr ''R'') 1 (init_state (JStr ''R'') (JStr ''Router'') [GetCi ''R'']))))))
   \<and> map r_type (filter (\<lambda>x. r_depth x = 1)
       (new_edges (init_state (JStr ''R'') (JStr ''Router'') [GetCi ''R''])
          (final (traverse (mk_env ascii_lower (request None (Some ''R'') (Some 2) both) parallel_client
             default_config) (JStr ''R'') 1 (init_state (JStr ''R'') (JStr ''Router'') [GetCi ''R''])))))
      = [''Runs on'', ''Contains'']
   \<and> map r_type (shown (mk_env ascii_lower (request None (Some ''R'') (Some 2) both) parallel_client
          default_config)
        (cached_class (mk_env ascii_lower (request None (Some ''R'') (Some 2) both) parallel_client
          default_config) (init_state (JStr ''R'') (JStr ''Router'') [GetCi ''R''])) 1
        (accepted (mk_env ascii_lower (request None (Some ''R'') (Some 2) both) parallel_client
          default_config) (JStr ''R'')
          (rows_of (client (mk_env ascii_lower (request None (Some ''R'') (Some 2) both) parallel_client
             default_config)) (JStr ''R'')) {}))
      = [''Runs on'', ''Contains'']
   \<and> pairKey ''B'' downstream \<noteq> pairKey ''B'' upstream"
proof -
  let ?e = "mk_env ascii_lower (request None (Some ''R'') (Some 2) both) parallel_client default_config"
  let ?s = "init_state (JStr ''R'') (JStr ''Router'') [GetCi ''R'']"
  let ?own = "filter (\<lambda>x. r_depth x = 1) (new_edges ?s (final (traverse ?e (JStr ''R'') 1 ?s)))"
  have d: "1 \<le> maxDepth ?e"
    by (simp add: mk_env_def effective_depth_def request_def)
  have own: "map r_type ?own = [''Runs on'', ''Contains'']"
    by (simp add: parallel_root_expansion new_edges_def)
  have fin: "\<exists>s'. traverse ?e (JStr ''R'') 1 ?s = Done s'"
    using parallel_root_expansion by blast
  note t = per_expansion_dedup [of 1 ?e ?s "JStr ''R''" downstream upstream "''B''" "''B''"]
  from t d have 1: "distinct (map (\<lambda>x. (r_sys_id x, r_direction x)) ?own)"
    by blast
  from t d fin have "?own = shown ?e (cached_class ?e ?s) 1
      (accepted ?e (JStr ''R'') (rows_of (client ?e) (JStr ''R'')) {})"
    by blast
  then have 2: "map r_type (shown ?e (cached_class ?e ?s) 1
      (accepted ?e (JStr ''R'') (rows_of (client ?e) (JStr ''R'')) {})) = [''Runs on'', ''Contains'']"
    using own by simp
  from t have 3: "pairKey ''B'' downstream \<noteq> pairKey ''B'' upstream" by blast
  show ?thesis using d 1 own 2 3 by (intro conjI)
qed

section \<open>Direction filter of one expansion\<close>

lemma lookup_class_cong:
  "get_class cl' = get_class cl \<Longrightarrow> lookup_class cl' i = lookup_class cl i"
  by (simp add: lookup_class_def)

lemma cached_class_cong:
  "get_class (client e') = get_class (client e) \<Longrightarrow> classCache s' = classCache s \<Longrightarrow>
   cached_class e' s' i = cached_class e s i"
  using lookup_class_cong [of "client e'" "client e" i]
  by (simp add: cached_class_def split: option.splits)

lemma classify_one_direction:
  assumes "direction e = both" "direction e' = D" "D \<noteq> both"
    "arg_type (args e') = arg_type (args e)" "toLowerCase e' = toLowerCase e"
  shows "classify e' cid r =
     (case classify e cid r of
        Inl te \<Rightarrow> Inl te
      | Inr None \<Rightarrow> Inr None
      | Inr (Some (oid, nm, dir, ty)) \<Rightarrow>
          if dir = D then Inr (Some (oid, nm, dir, ty)) else Inr None)"
  using assms by (auto simp: classify_def Let_def split: option.splits sum.splits)

lemma accepted_one_direction:
  assumes "direction e = both" "direction e' = D" "D \<noteq> both"
    "arg_type (args e') = arg_type (args e)" "toLowerCase e' = toLowerCase e"
  shows "(\<forall>oid. pairKey oid D \<in> seen' \<longleftrightarrow> pairKey oid D \<in> seen) \<Longrightarrow>
     accepted e' cid rows seen'
       = filter (\<lambda>t. fst (snd (snd t)) = D) (accepted e cid rows seen)"
proof (induction rows arbitrary: seen seen')
  case Nil
  show ?case by simp
next
  case (Cons r rs)
  note c = classify_one_direction [OF assms, of cid r]
  show ?case
  proof (cases "classify e cid r")
    case (Inl te)
    then show ?thesis using c by simp
  next
    case (Inr x)
    show ?thesis
    proof (cases x)
      case None
      then show ?thesis using c Inr Cons by simp
    next
      case (Some t)
      obtain oid nm dir ty where t: "t = (oid, nm, dir, ty)" by (cases t) auto
      have nb: "dir \<noteq> both"
        using classify_SomeD(2) [of e cid r oid nm dir ty] Inr Some t by simp
      show ?thesis
      proof (cases "dir = D")
        case True
        have "\<forall>o'. pairKey o' D \<in> insert (pairKey oid D) seen'
            \<longleftrightarrow> pairKey o' D \<in> insert (pairKey oid D) seen"
          using Cons.prems by auto
        from Cons.IH [OF this] Cons.IH [OF Cons.prems] show ?thesis
          using c Inr Some t True Cons.prems by simp
      next
        case False
        have "\<forall>o'. pairKey o' D \<in> seen' \<longleftrightarrow> pairKey o' D \<in> insert (pairKey oid dir) seen"
          using Cons.prems pairKey_inject [of _ D oid dir] assms(3) nb False by auto
        from Cons.IH [OF this] Cons.IH [OF Cons.prems] show ?thesis
          using c Inr Some t False by simp
      qed
    qed
  qed
qed

lemma shown_one_direction:
  assumes "arg_class (args e') = arg_class (args e)" "toLowerCase e' = toLowerCase e"
  shows "shown e' K d (filter (\<lambda>t. fst (snd (snd t)) = D) ts)
       = filter (\<lambda>x. r_direction x = D) (shown e K d ts)"
  by (induction ts) (auto simp: assms mk_edge_def split: prod.splits)

lemma handler_success:
  assumes "\<not> isl (fst (handler lc a cl cfg))"
  obtains rootId rootName rootClass cs0 s'
  where "truthy_opt (arg_ci_name a) \<or> truthy_opt (arg_sys_id a)"
    "resolve_root a cl = (Inr (rootId, rootName, rootClass), cs0)"
    "traverse (mk_env lc a cl cfg) rootId 1 (init_state rootId rootClass cs0) = Done s'"
    "handler lc a cl cfg = (Inr (result_of a cfg rootId rootName rootClass s'), calls s')"
proof -
  obtain res cs where h: "handler lc a cl cfg = (Inr res, cs)"
    using assms by (cases "handler lc a cl cfg"; cases "fst (handler lc a cl cfg)") auto
  from h show thesis
    by (rule handler_InrD) (use h that in blast)
qed

lemma handler_depth1:
  assumes "resolve_root a cl = (Inr (rootId, rootName, rootClass), cs0)"
    "traverse (mk_env lc a cl cfg) rootId 1 (init_state rootId rootClass cs0) = Done s'"
    "handler lc a cl cfg = (Inr (result_of a cfg rootId rootName rootClass s'), calls s')"
  shows "depth1 (handler lc a cl cfg)
       = shown (mk_env lc a cl cfg)
           (cached_class (mk_env lc a cl cfg) (init_state rootId rootClass cs0)) 1
           (accepted (mk_env lc a cl cfg) rootId (rows_of cl rootId) {})"
    and "edges_of (handler lc a cl cfg) = new_edges (init_state rootId rootClass cs0) s'"
proof -
  let ?e = "mk_env lc a cl cfg" and ?s0 = "init_state rootId rootClass cs0"
  have d: "1 \<le> maxDepth ?e" by (simp add: mk_env_def effective_depth_def)
  show ed: "edges_of (handler lc a cl cfg) = new_edges ?s0 s'"
    using assms(2,3) new_edges_traverse(1) [of ?e rootId 1 ?s0]
    by (simp add: edges_of_def result_of_def)
  show "depth1 (handler lc a cl cfg)
       = shown ?e (cached_class ?e ?s0) 1 (accepted ?e rootId (rows_of cl rootId) {})"
    using own_edges(2) [OF d, of rootId ?s0] ed assms(2) by (simp add: depth1_def mk_env_def)
qed

lemma handler_one_direction:
  assumes "\<not> arg_impact a" "D \<noteq> both"
    "\<not> isl (fst (handler lc (a\<lparr>arg_direction := both\<rparr>) cl cfg))"
    "\<not> isl (fst (handler lc (a\<lparr>arg_direction := D\<rparr>) cl cfg))"
  shows "depth1 (handler lc (a\<lparr>arg_direction := D\<rparr>) cl cfg)
       = filter (\<lambda>x. r_direction x = D) (depth1 (handler lc (a\<lparr>arg_direction := both\<rparr>) cl cfg))"
proof -
  let ?b = "a\<lparr>arg_direction := both\<rparr>" and ?d = "a\<lparr>arg_direction := D\<rparr>"
  let ?eb = "mk_env lc ?b cl cfg" and ?ed = "mk_env lc ?d cl cfg"
  have rr: "resolve_root ?d cl = resolve_root ?b cl" by (rule resolve_root_cong) simp_all
  from assms(3) obtain rootId rootName rootClass cs0 sb
    where rb: "resolve_root ?b cl = (Inr (rootId, rootName, rootClass), cs0)"
      and tb: "traverse ?eb rootId 1 (init_state rootId rootClass cs0) = Done sb"
      and hb: "handler lc ?b cl cfg = (Inr (result_of ?b cfg rootId rootName rootClass sb), calls sb)"
    by (rule handler_success)
  from assms(4) obtain rootId' rootName' rootClass' cs0' sd
    where rd: "resolve_root ?d cl = (Inr (rootId', rootName', rootClass'), cs0')"
      and td: "traverse ?ed rootId' 1 (init_state rootId' rootClass' cs0') = Done sd"
      and hd: "handler lc ?d cl cfg = (Inr (result_of ?d cfg rootId' rootName' rootClass' sd), calls sd)"
    by (rule handler_success)
  have same: "rootId' = rootId" "rootName' = rootName" "rootClass' = rootClass" "cs0' = cs0"
    using rb rd rr by simp_all
  let ?s0 = "init_state rootId rootClass cs0"
  have b: "depth1 (handler lc ?b cl cfg)
      = shown ?eb (cached_class ?eb ?s0) 1 (accepted ?eb rootId (rows_of cl rootId) {})"
    using rb tb hb by (rule handler_depth1(1))
  have d: "depth1 (handler lc ?d cl cfg)
      = shown ?ed (cached_class ?ed ?s0) 1 (accepted ?ed rootId (rows_of cl rootId) {})"
    using rd td hd unfolding same by (rule handler_depth1(1))
  have K: "cached_class ?ed ?s0 = cached_class ?eb ?s0"
    by (rule ext, rule cached_class_cong) (simp_all add: mk_env_def)
  have acc: "accepted ?ed rootId (rows_of cl rootId) {}
      = filter (\<lambda>t. fst (snd (snd t)) = D) (accepted ?eb rootId (rows_of cl rootId) {})"
    by (rule accepted_one_direction [where D = D])
       (use assms in \<open>simp_all add: mk_env_def effective_direction_def\<close>)
  show ?thesis
    unfolding b d K acc
    by (rule shown_one_direction) (simp_all add: mk_env_def)
qed

lemma handler_edge_directions:
  "\<forall>x\<in>set (edges_of (handler lc a cl cfg)). r_direction x = upstream \<or> r_direction x = downstream"
proof (cases "fst (handler lc a cl cfg)")
  case (Inl m)
  then show ?thesis by (simp add: edges_of_def)
next
  case (Inr res)
  then have h: "handler lc a cl cfg = (Inr res, snd (handler lc a cl cfg))"
    by (metis prod.collapse)
  have "\<forall>x\<in>set (relationships res). r_direction x = upstream \<or> r_direction x = downstream"
  proof (rule handler_edges [OF h])
    fix cid d r oid nm dir ty cls
    assume "classify (mk_env lc a cl cfg) cid r = Inr (Some (oid, nm, dir, ty))"
    then have "dir \<noteq> both" by (rule classify_SomeD(2))
    then show "r_direction (mk_edge d cls (oid, nm, dir, ty)) = upstream
        \<or> r_direction (mk_edge d cls (oid, nm, dir, ty)) = downstream"
      by (cases dir) simp_all
  qed
  then show ?thesis using Inr by (simp add: edges_of_def)
qed

lemma handler_edge_depths:
  "\<forall>x\<in>set (edges_of (handler lc a cl cfg)). 1 \<le> r_depth x \<and> r_depth x \<le> effective_depth a cfg"
proof (cases "fst (handler lc a cl cfg)")
  case (Inl m)
  then show ?thesis by (simp add: edges_of_def)
next
  case (Inr res)
  then have h: "handler lc a cl cfg = (Inr res, snd (handler lc a cl cfg))"
    by (metis prod.collapse)
  have "\<forall>x\<in>set (relationships res). 1 \<le> r_depth x \<and> r_depth x \<le> effective_depth a cfg"
    by (rule handler_edges [OF h]) simp
  then show ?thesis using Inr by (simp add: edges_of_def)
qed

lemma family_both:
  "handler ascii_lower (request None (Some ''R'') (Some 2) both) family_client default_config =
    (Inr \<lparr>root = \<lparr>root_name = JStr ''r'', root_class = JStr ''Server'', root_sys_id = JStr ''R''\<rparr>,
          relationships =
     [\<lparr>r_name = ''p'', r_class = JStr ''Cluster'', r_type = ''Contains'',
        r_direction = upstream, r_sys_id = ''P'', r_depth = 1\<rparr>,
      \<lparr>r_name = ''r'', r_class = JStr ''Server'', r_type = ''Contains'',
        r_direction = downstream, r_sys_id = ''R'', r_depth = 2\<rparr>,
      \<lparr>r_name = ''s'', r_class = JStr ''Server'', r_type = ''Contains'',
        r_direction = downstream, r_sys_id = ''S'', r_depth = 2\<rparr>],
          meta = \<lparr>meta_depth = 2, meta_direction = both, meta_total = 3\<rparr>\<rparr>,
     [GetCi ''R'', QueryRel (JStr ''R''), GetClass ''P'', QueryRel (JStr ''P''), GetClass ''S''])"
  by (simp add: eval_simps family_client_def)

lemma family_upstream:
  "handler ascii_lower (request None (Some ''R'') (Some 2) upstream) family_client default_config =
    (Inr \<lparr>root = \<lparr>root_name = JStr ''r'', root_class = JStr ''Server'', root_sys_id = JStr ''R''\<rparr>,
          relationships =
     [\<lparr>r_name = ''p'', r_class = JStr ''Cluster'', r_type = ''Contains'',
        r_direction = upstream, r_sys_id = ''P'', r_depth = 1\<rparr>],
          meta = \<lparr>meta_depth = 2, meta_direction = upstream, meta_total = 1\<rparr>\<rparr>,
     [GetCi ''R'', QueryRel (JStr ''R''), GetClass ''P'', QueryRel (JStr ''P'')])"
  by (simp add: eval_simps family_client_def)

lemma family_downstream:
  "handler ascii_lower (request None (Some ''R'') (Some 2) downstream) family_client default_config =
    (Inr \<lparr>root = \<lparr>root_name = JStr ''r'', root_class = JStr ''Server'', root_sys_id = JStr ''R''\<rparr>,
          relationships = [],
          meta = \<lparr>meta_depth = 2, meta_direction = downstream, meta_total = 0\<rparr>\<rparr>,
     [GetCi ''R'', QueryRel (JStr ''R'')])"
  by (simp add: eval_simps family_client_def)

section \<open>Runs in one direction and in both\<close>

text \<open>
  C8, as the claim states it, fails. On the store where P is the parent of R and
  of S, from R with depth 2, all three runs return a result; the run in both
  directions goes up to P and from there down to S; the upstream run reports P
  alone and the downstream run reports nothing, so the edge to S is in no run of
  one direction, whatever its depth.
\<close>

theorem direction_union_counterexample:
  "\<not> isl (fst (handler ascii_lower (request None (Some ''R'') (Some 2) both) family_client default_config))
   \<and> \<not> isl (fst (handler ascii_lower (request None (Some ''R'') (Some 2) upstream) family_client default_config))
   \<and> \<not> isl (fst (handler ascii_lower (request None (Some ''R'') (Some 2) downstream) family_client default_config))
   \<and> map r_sys_id (edges_of (handler ascii_lower (request None (Some ''R'') (Some 2) both) family_client default_config))
     = [''P'', ''R'', ''S'']
   \<and> map r_sys_id (edges_of (handler ascii_lower (request None (Some ''R'') (Some 2) upstream) family_client default_config))
     = [''P'']
   \<and> map r_sys_id (edges_of (handler ascii_lower (request None (Some ''R'') (Some 2) downstream) family_client default_config))
     = []
   \<and> set (edges_of (handler ascii_lower (request None (Some ''R'') (Some 2) both) family_client default_config))
     \<noteq> set (edges_of (handler ascii_lower (request None (Some ''R'') (Some 2) upstream) family_client default_config))
       \<union> set (edges_of (handler ascii_lower (request None (Some ''R'') (Some 2) downstream) family_client default_config))"
  by (simp add: family_both family_upstream family_downstream edges_of_def)

text \<open>
  C8, amended. For a request without the impact flag whose run in both
  directions returns a result: where the upstream run returns a result, its edges
  of depth 1 (those found while expanding the root) are the upstream edges of
  depth 1 of the run in both directions, in the same order, and likewise
  downstream; so where all three runs return a result, the depth 1 edges of the
  run in both directions are, as a set, the union of those of the two runs in one
  direction, and with depth 1 this holds for the whole edge lists.
\<close>

theorem direction_union_at_root:
  "\<not> arg_impact a \<and> \<not> isl (fst (handler lc (a\<lparr>arg_direction := both\<rparr>) cl cfg)) \<longrightarrow>
     (\<not> isl (fst (handler lc (a\<lparr>arg_direction := upstream\<rparr>) cl cfg)) \<longrightarrow>
        depth1 (handler lc (a\<lparr>arg_direction := upstream\<rparr>) cl cfg)
          = filter (\<lambda>x. r_direction x = upstream)
              (depth1 (handler lc (a\<lparr>arg_direction := both\<rparr>) cl cfg)))
     \<and> (\<not> isl (fst (handler lc (a\<lparr>arg_direction := downstream\<rparr>) cl cfg)) \<longrightarrow>
        depth1 (handler lc (a\<lparr>arg_direction := downstream\<rparr>) cl cfg)
          = filter (\<lambda>x. r_direction x = downstream)
              (depth1 (handler lc (a\<lparr>arg_direction := both\<rparr>) cl cfg)))
     \<and> (\<not> isl (fst (handler lc (a\<lparr>arg_direction := upstream\<rparr>) cl cfg))
        \<and> \<not> isl (fst (handler lc (a\<lparr>arg_direction := downstream\<rparr>) cl cfg)) \<longrightarrow>
          set (depth1 (handler lc (a\<lparr>arg_direction := both\<rparr>) cl cfg))
            = set (depth1 (handler lc (a\<lparr>arg_direction := upstream\<rparr>) cl cfg))
              \<union> set (depth1 (handler lc (a\<lparr>arg_direction := downstream\<rparr>) cl cfg))
          \<and> (effective_depth a cfg = 1 \<longrightarrow>
               set (edges_of (handler lc (a\<lparr>arg_direction := both\<rparr>) cl cfg))
                 = set (edges_of (handler lc (a\<lparr>arg_direction := upstream\<rparr>) cl cfg))
                   \<union> set (edges_of (handler lc (a\<lparr>arg_direction := downstream\<rparr>) cl cfg))))"
proof
  assume i: "\<not> arg_impact a \<and> \<not> isl (fst (handler lc (a\<lparr>arg_direction := both\<rparr>) cl cfg))"
  let ?hb = "handler lc (a\<lparr>arg_direction := both\<rparr>) cl cfg"
  let ?hu = "handler lc (a\<lparr>arg_direction := upstream\<rparr>) cl cfg"
  let ?hd = "handler lc (a\<lparr>arg_direction := downstream\<rparr>) cl cfg"
  have u: "depth1 ?hu = filter (\<lambda>x. r_direction x = upstream) (depth1 ?hb)"
    if "\<not> isl (fst ?hu)"
    using i that by (intro handler_one_direction) simp_all
  have d: "depth1 ?hd = filter (\<lambda>x. r_direction x = downstream) (depth1 ?hb)"
    if "\<not> isl (fst ?hd)"
    using i that by (intro handler_one_direction) simp_all
  have dirs: "\<forall>x\<in>set (depth1 ?hb). r_direction x = upstream \<or> r_direction x = downstream"
    using handler_edge_directions [of lc "a\<lparr>arg_direction := both\<rparr>" cl cfg]
    by (simp add: depth1_def)
  have un: "set (depth1 ?hb) = set (depth1 ?hu) \<union> set (depth1 ?hd)"
    if "\<not> isl (fst ?hu)" "\<not> isl (fst ?hd)"
    unfolding u [OF that(1)] d [OF that(2)] using dirs by auto
  have one: "set (edges_of ?hb) = set (edges_of ?hu) \<union> set (edges_of ?hd)"
    if s: "\<not> isl (fst ?hu)" "\<not> isl (fst ?hd)" and e: "effective_depth a cfg = 1"
  proof -
    have "depth1 (handler lc (a\<lparr>arg_direction := D\<rparr>) cl cfg)
        = edges_of (handler lc (a\<lparr>arg_direction := D\<rparr>) cl cfg)" for D
    proof -
      have "effective_depth (a\<lparr>arg_direction := D\<rparr>) cfg = 1"
        using e by (simp add: effective_depth_def)
      then have "\<forall>x\<in>set (edges_of (handler lc (a\<lparr>arg_direction := D\<rparr>) cl cfg)). r_depth x = 1"
        using handler_edge_depths [of lc "a\<lparr>arg_direction := D\<rparr>" cl cfg] by auto
      then show ?thesis by (simp add: depth1_def)
    qed
    then show ?thesis using un [OF s] by simp
  qed
  show "(\<not> isl (fst ?hu) \<longrightarrow> depth1 ?hu = filter (\<lambda>x. r_direction x = upstream) (depth1 ?hb))
     \<and> (\<not> isl (fst ?hd) \<longrightarrow> depth1 ?hd = filter (\<lambda>x. r_direction x = downstream) (depth1 ?hb))
     \<and> (\<not> isl (fst ?hu) \<and> \<not> isl (fst ?hd) \<longrightarrow>
          set (depth1 ?hb) = set (depth1 ?hu) \<union> set (depth1 ?hd)
          \<and> (effective_depth a cfg = 1 \<longrightarrow>
               set (edges_of ?hb) = set (edges_of ?hu) \<union> set (edges_of ?hd)))"
    using u d un one by blast
qed

lemma family_depth1:
  "handler ascii_lower (request None (Some ''P'') (Some 1) both) family_client default_config =
    (Inr \<lparr>root = \<lparr>root_name = JStr ''p'', root_class = JStr ''Cluster'', root_sys_id = JStr ''P''\<rparr>,
          relationships =
     [\<lparr>r_name = ''r'', r_class = JStr ''Server'', r_type = ''Contains'',
        r_direction = downstream, r_sys_id = ''R'', r_depth = 1\<rparr>,
      \<lparr>r_name = ''s'', r_class = JStr ''Server'', r_type = ''Contains'',
        r_direction = downstream, r_sys_id = ''S'', r_depth = 1\<rparr>],
          meta = \<lparr>meta_depth = 1, meta_direction = both, meta_total = 2\<rparr>\<rparr>,
     [GetCi ''P'', QueryRel (JStr ''P''), GetClass ''R'', GetClass ''S''])"
  "\<not> isl (fst (handler ascii_lower (request None (Some ''P'') (Some 1) upstream) family_client
      default_config))"
  "\<not> isl (fst (handler ascii_lower (request None (Some ''P'') (Some 1) downstream) family_client
      default_config))"
  by (simp_all add: eval_simps family_client_def)

theorem direction_union_at_root_witness:
  "\<not> arg_impact (request None (Some ''P'') (Some 1) both)
   \<and> \<not> isl (fst (handler ascii_lower (request None (Some ''P'') (Some 1) both) family_client default_config))
   \<and> \<not> isl (fst (handler ascii_lower (request None (Some ''P'') (Some 1) upstream) family_client default_config))
   \<and> \<not> isl (fst (handler ascii_lower (request None (Some ''P'') (Some 1) downstream) family_client default_config))
   \<and> effective_depth (request None (Some ''P'') (Some 1) both) default_config = 1
   \<and> set (edges_of (handler ascii_lower (request None (Some ''P'') (Some 1) both) family_client default_config))
      = set (edges_of (handler ascii_lower (request None (Some ''P'') (Some 1) upstream) family_client default_config))
        \<union> set (edges_of (handler ascii_lower (request None (Some ''P'') (Some 1) downstream) family_client default_config))
   \<and> map r_sys_id (edges_of (handler ascii_lower (request None (Some ''P'') (Some 1) both) family_client default_config))
      = [''R'', ''S'']"
proof -
  let ?a = "request None (Some ''P'') (Some 1) both"
  have i: "\<not> arg_impact ?a" by (simp add: request_def)
  have e: "effective_depth ?a default_config = 1" by (simp add: request_def effective_depth_def)
  have r: "?a\<lparr>arg_direction := both\<rparr> = request None (Some ''P'') (Some 1) both"
    "?a\<lparr>arg_direction := upstream\<rparr> = request None (Some ''P'') (Some 1) upstream"
    "?a\<lparr>arg_direction := downstream\<rparr> = request None (Some ''P'') (Some 1) downstream"
    by (simp_all add: request_def)
  have s: "\<not> isl (fst (handler ascii_lower (request None (Some ''P'') (Some 1) both) family_client default_config))"
    by (simp add: family_depth1(1))
  note su = family_depth1(2) and sd = family_depth1(3)
  have "set (edges_of (handler ascii_lower (?a\<lparr>arg_direction := both\<rparr>) family_client default_config))
      = set (edges_of (handler ascii_lower (?a\<lparr>arg_direction := upstream\<rparr>) family_client default_config))
        \<union> set (edges_of (handler ascii_lower (?a\<lparr>arg_direction := downstream\<rparr>) family_client default_config))"
    using direction_union_at_root [of ?a ascii_lower family_client default_config] i e s su sd
    unfolding r by blast
  then have u: "set (edges_of (handler ascii_lower (request None (Some ''P'') (Some 1) both) family_client default_config))
      = set (edges_of (handler ascii_lower (request None (Some ''P'') (Some 1) upstream) family_client default_config))
        \<union> set (edges_of (handler ascii_lower (request None (Some ''P'') (Some 1) downstream) family_client default_config))"
    by (simp only: r)
  have m: "map r_sys_id (edges_of (handler ascii_lower (request None (Some ''P'') (Some 1) both)
      family_client default_config)) = [''R'', ''S'']"
    by (simp add: family_depth1(1) edges_of_def)
  show ?thesis using i s su sd e u m by (intro conjI)
qed

section \<open>Runs with and without a class filter\<close>

lemma narrow_simps [simp]:
  "visited (narrow lc flt s) = visited s"
  "classCache (narrow lc flt s) = classCache s"
  "calls (narrow lc flt s) = calls s"
  "allRels (narrow lc flt s) = filter (displayed lc flt) (allRels s)"
  by (simp_all add: narrow_def)

lemma narrow_log: "narrow lc flt (s\<lparr>calls := cs\<rparr>) = (narrow lc flt s)\<lparr>calls := cs\<rparr>"
  by (simp add: narrow_def)

lemma narrow_init_state [simp]: "narrow lc flt (init_state i c cs) = init_state i c cs"
  by (simp add: narrow_def init_state_def)

lemma row_step_narrow:
  assumes env: "direction e = direction e'" "arg_type (args e) = arg_type (args e')"
    "toLowerCase e = toLowerCase e'"
    "get_class (client e) = get_class (client e')" "maxDepth e = maxDepth e'"
    "arg_class (args e') = None"
  shows "row_step e' cid d r seen s = Skip \<Longrightarrow>
           row_step e cid d r seen (narrow (toLowerCase e) (arg_class (args e)) s) = Skip"
    and "row_step e' cid d r seen s = Raise te s' \<Longrightarrow>
           \<exists>s''. row_step e cid d r seen (narrow (toLowerCase e) (arg_class (args e)) s) = Raise te s''"
    and "row_step e' cid d r seen s = Go seen' s2 nxt \<Longrightarrow>
           row_step e cid d r seen (narrow (toLowerCase e) (arg_class (args e)) s)
             = Go seen' (narrow (toLowerCase e) (arg_class (args e)) s2) nxt
           \<or> (\<exists>te s''. row_step e cid d r seen (narrow (toLowerCase e) (arg_class (args e)) s)
                 = Raise te s'')"
proof -
  let ?n = "narrow (toLowerCase e) (arg_class (args e))"
  have c: "classify e cid r = classify e' cid r"
    by (rule classify_cong) (simp_all add: env)
  have nf: "class_shown (toLowerCase e') (arg_class (args e')) x = Inr True" for x
    by (simp add: class_shown_def env)
  show "row_step e cid d r seen (?n s) = Skip" if "row_step e' cid d r seen s = Skip"
    using that by (simp add: row_step_Skip_iff c)
  show "\<exists>s''. row_step e cid d r seen (?n s) = Raise te s''"
    if "row_step e' cid d r seen s = Raise te s'"
    using that
  proof (rule row_step_RaiseE)
    assume "classify e' cid r = Inl te"
    then show ?thesis using c by (simp add: row_step_def)
  next
    fix oid nm dir ty
    assume "class_shown (toLowerCase e') (arg_class (args e')) (cached_class e' s oid) = Inl te"
    then show ?thesis using nf by simp
  qed
  show "row_step e cid d r seen (?n s) = Go seen' (?n s2) nxt
      \<or> (\<exists>te s''. row_step e cid d r seen (?n s) = Raise te s'')"
    if u: "row_step e' cid d r seen s = Go seen' s2 nxt"
    using u
  proof (rule row_step_GoE)
    fix oid nm dir ty b
    assume cl: "classify e' cid r = Inr (Some (oid, nm, dir, ty))"
      and k: "pairKey oid dir \<notin> seen"
      and seen': "seen' = insert (pairKey oid dir) seen"
      and b: "class_shown (toLowerCase e') (arg_class (args e')) (cached_class e' s oid) = Inr b"
      and rels: "allRels s2 = allRels s @
         (if b then [mk_edge d (cached_class e' s oid) (oid, nm, dir, ty)] else [])"
      and cache: "classCache s2 = (classCache s)(JStr oid \<mapsto> cached_class e' s oid)"
      and cs: "calls s2 = calls s @ (if classCache s (JStr oid) = None then [GetClass oid] else [])"
      and nxt: "nxt = (if d < maxDepth e' \<and> JStr oid \<notin> visited s then Some oid else None)"
      and vis: "visited s2 = (if d < maxDepth e' then insert (JStr oid) (visited s) else visited s)"
    have bT: "b" using b nf by simp
    have cc: "cached_class e (?n s) oid = cached_class e' s oid"
      by (rule cached_class_cong) (simp_all add: env)
    have ns: "row_step e cid d r seen (?n s) \<noteq> Skip"
      using k cl c by (simp add: row_step_Skip_iff)
    show ?thesis
    proof (cases "row_step e cid d r seen (?n s)")
      case Skip
      then show ?thesis using ns by simp
    next
      case (Raise te s'')
      then show ?thesis by blast
    next
      case (Go seen'' s2' nxt')
      then show ?thesis
      proof (rule row_step_GoE)
        fix oid' nm' dir' ty' b'
        assume cl': "classify e cid r = Inr (Some (oid', nm', dir', ty'))"
          and seen'': "seen'' = insert (pairKey oid' dir') seen"
          and b': "class_shown (toLowerCase e) (arg_class (args e)) (cached_class e (?n s) oid') = Inr b'"
          and rels': "allRels s2' = allRels (?n s) @
             (if b' then [mk_edge d (cached_class e (?n s) oid') (oid', nm', dir', ty')] else [])"
          and cache': "classCache s2' = (classCache (?n s))(JStr oid' \<mapsto> cached_class e (?n s) oid')"
          and cs': "calls s2' = calls (?n s) @
             (if classCache (?n s) (JStr oid') = None then [GetClass oid'] else [])"
          and nxt': "nxt' = (if d < maxDepth e \<and> JStr oid' \<notin> visited (?n s) then Some oid' else None)"
          and vis': "visited s2' = (if d < maxDepth e then insert (JStr oid') (visited (?n s))
                                    else visited (?n s))"
        have same: "oid' = oid" "nm' = nm" "dir' = dir" "ty' = ty" using cl cl' c by simp_all
        have disp: "displayed (toLowerCase e) (arg_class (args e))
            (mk_edge d (cached_class e' s oid) (oid, nm, dir, ty)) \<longleftrightarrow> b'"
          using b' same cc by (simp add: displayed_def)
        have "s2' = ?n s2"
        proof (rule tstate.equality)
          show "visited s2' = visited (?n s2)"
            using vis vis' same env by simp
          show "classCache s2' = classCache (?n s2)"
            using cache cache' same cc by simp
          show "calls s2' = calls (?n s2)"
            using cs cs' same by simp
          show "allRels s2' = allRels (?n s2)"
            using rels rels' same cc bT disp by simp
        qed simp
        moreover have "nxt' = nxt" using nxt nxt' same env by simp
        moreover have "seen'' = seen'" using seen' seen'' same by simp
        ultimately show ?thesis using Go by simp
      qed
    qed
  qed
qed

lemma traverse_narrow:
  assumes env: "direction e = direction e'" "arg_type (args e) = arg_type (args e')"
    "toLowerCase e = toLowerCase e'"
    "get_class (client e) = get_class (client e')" "maxDepth e = maxDepth e'"
    "arg_class (args e') = None" "query_rel (client e) = query_rel (client e')"
  shows "traverse e cid d (narrow (toLowerCase e) (arg_class (args e)) s) = Done sf \<Longrightarrow>
           \<exists>su. traverse e' cid d s = Done su \<and> sf = narrow (toLowerCase e) (arg_class (args e)) su"
    and "loop e cid d recs seen (narrow (toLowerCase e) (arg_class (args e)) s) = Done sf \<Longrightarrow>
           \<exists>su. loop e' cid d recs seen s = Done su
                \<and> sf = narrow (toLowerCase e) (arg_class (args e)) su"
proof (induction cid d s and cid d recs seen s arbitrary: sf and sf
    rule: traverse_loop_induct [where e = e'])
  case (too_deep cid d s)
  then show ?case using env(5) by (simp add: traverse_too_deep)
next
  case (threw cid d s m)
  then show ?case using env(5,7) by (simp add: traverse_threw narrow_log)
next
  case (bad cid d s b te)
  then show ?case using env(5,7) by (simp add: traverse_bad)
next
  case (rows cid d s b recs)
  then show ?case using env(5,7) by (simp add: traverse_rows narrow_log)
next
  case (Nil cid d seen s)
  then show ?case by simp
next
  case (skip cid d r rs seen s)
  then show ?case using row_step_narrow(1) [OF env(1-6) skip(1)] by (simp add: loop_skip)
next
  case (raise cid d r rs seen s te s')
  then show ?case using row_step_narrow(2) [OF env(1-6) raise(1)] by (auto simp: loop_raise)
next
  case (stay cid d r rs seen s seen' s2)
  from row_step_narrow(3) [OF env(1-6) stay(1)] show ?case
  proof
    assume "row_step e cid d r seen (narrow (toLowerCase e) (arg_class (args e)) s)
        = Go seen' (narrow (toLowerCase e) (arg_class (args e)) s2) None"
    then show ?thesis using stay by (simp add: loop_stay)
  next
    assume "\<exists>te s''. row_step e cid d r seen (narrow (toLowerCase e) (arg_class (args e)) s)
        = Raise te s''"
    then show ?thesis using stay.prems by (auto simp: loop_raise)
  qed
next
  case (recurse cid d r rs seen s seen' s2 oid)
  let ?n = "narrow (toLowerCase e) (arg_class (args e))"
  from row_step_narrow(3) [OF env(1-6) recurse(1)] show ?case
  proof
    assume "\<exists>te s''. row_step e cid d r seen (?n s) = Raise te s''"
    then show ?thesis using recurse.prems by (auto simp: loop_raise)
  next
    assume g: "row_step e cid d r seen (?n s) = Go seen' (?n s2) (Some oid)"
    show ?thesis
    proof (cases "traverse e (JStr oid) (d + 1) (?n s2)")
      case (Raised te s3)
      then show ?thesis using recurse.prems g by (simp add: loop_recurse_raised)
    next
      case (Done sf3)
      from recurse(2) [OF Done] obtain su3 where
        su3: "traverse e' (JStr oid) (d + 1) s2 = Done su3" "sf3 = ?n su3" by blast
      have "loop e cid d rs seen' (?n su3) = Done sf"
        using recurse.prems g Done su3(2) by (simp add: loop_recurse_done)
      from recurse(3) [OF su3(1) this] show ?thesis
        using recurse(1) su3(1) by (simp add: loop_recurse_done)
    qed
  qed
qed

text \<open>
  Where the run with a class filter returns a result, the run without the
  filter returns one too and sends the same requests in the same order, and the
  result with the filter is the result without it narrowed to the edges that line
  214 lets through: the filter decides what is reported, not what is expanded.
\<close>

lemma class_filter_when_returns:
  assumes "handler lc (a\<lparr>arg_class := flt\<rparr>) cl cfg = (Inr res, cs)"
  shows "\<exists>res'. handler lc (a\<lparr>arg_class := None\<rparr>) cl cfg = (Inr res', cs)
           \<and> res = narrow_result lc flt res'"
  using assms
proof (rule handler_InrD)
  fix rootId rootName rootClass cs0 sf
  let ?u = "a\<lparr>arg_class := None\<rparr>" and ?f = "a\<lparr>arg_class := flt\<rparr>"
  let ?s0 = "init_state rootId rootClass cs0"
  assume t: "truthy_opt (arg_ci_name ?f) \<or> truthy_opt (arg_sys_id ?f)"
    and rr: "resolve_root ?f cl = (Inr (rootId, rootName, rootClass), cs0)"
    and tr: "traverse (mk_env lc ?f cl cfg) rootId 1 ?s0 = Done sf"
    and res: "res = result_of ?f cfg rootId rootName rootClass sf" and cs: "cs = calls sf"
  have rr': "resolve_root ?u cl = (Inr (rootId, rootName, rootClass), cs0)"
    using rr resolve_root_cong [of ?u ?f cl] by simp
  have "traverse (mk_env lc ?f cl cfg) rootId 1
      (narrow (toLowerCase (mk_env lc ?f cl cfg)) (arg_class (args (mk_env lc ?f cl cfg))) ?s0)
      = Done sf"
    using tr by simp
  then have "\<exists>su. traverse (mk_env lc ?u cl cfg) rootId 1 ?s0 = Done su
      \<and> sf = narrow (toLowerCase (mk_env lc ?f cl cfg)) (arg_class (args (mk_env lc ?f cl cfg))) su"
    by (rule traverse_narrow(1) [rotated -1])
       (simp_all add: mk_env_def effective_depth_def effective_direction_def)
  then obtain su where su: "traverse (mk_env lc ?u cl cfg) rootId 1 ?s0 = Done su"
    "sf = narrow lc flt su" by (auto simp: mk_env_def)
  have "handler lc ?u cl cfg = (Inr (result_of ?u cfg rootId rootName rootClass su), calls su)"
    using handler_resolved [of ?u cl rootId rootName rootClass cs0 lc cfg] t rr' su(1) by simp
  moreover have "res = narrow_result lc flt (result_of ?u cfg rootId rootName rootClass su)"
    using res su(2)
    by (simp add: result_of_def narrow_result_def effective_depth_def effective_direction_def)
  moreover have "cs = calls su" using cs su(2) by simp
  ultimately show ?thesis by simp
qed

section \<open>The class filter on a root without a class\<close>

lemma includes_str_sublist: "includes_str s t \<longleftrightarrow> sublist t s"
  by (induction s) (auto simp: sublist_Cons_right)

lemma chain_run:
  "handler ascii_lower ((request None (Some ''R'') (Some 2) both)\<lparr>arg_class := Some ''Server''\<rparr>)
      chain_client default_config =
    (Inr \<lparr>root = \<lparr>root_name = JStr ''r'', root_class = JStr ''Router'', root_sys_id = JStr ''R''\<rparr>,
          relationships =
            [\<lparr>r_name = ''c'', r_class = JStr ''Server'', r_type = ''Connects to'',
               r_direction = downstream, r_sys_id = ''C'', r_depth = 2\<rparr>],
          meta = \<lparr>meta_depth = 2, meta_direction = both, meta_total = 1\<rparr>\<rparr>,
     [GetCi ''R'', QueryRel (JStr ''R''), GetClass ''B'', QueryRel (JStr ''B''), GetClass ''C''])"
  by (simp add: eval_simps chain_client_def)

lemma classless_filtered_run:
  "handler lc ((request None (Some ''R'') (Some 2) both)\<lparr>arg_class := Some ''Server''\<rparr>)
      classless_client default_config =
    (Inl (err (cannot_read JUndefined ''toLowerCase'')),
     [GetCi ''R'', QueryRel (JStr ''R''), GetClass ''B'', QueryRel (JStr ''B'')])"
  by (simp add: eval_simps classless_client_def chain_client_def)

lemma classless_run:
  "handler lc (request None (Some ''R'') (Some 2) both) classless_client default_config =
    (Inr \<lparr>root = \<lparr>root_name = JStr ''r'', root_class = JUndefined, root_sys_id = JStr ''R''\<rparr>,
          relationships =
            [\<lparr>r_name = ''b'', r_class = JStr ''Switch'', r_type = ''Connects to'',
               r_direction = downstream, r_sys_id = ''B'', r_depth = 1\<rparr>,
             \<lparr>r_name = ''r'', r_class = JUndefined, r_type = ''Connects to'',
               r_direction = upstream, r_sys_id = ''R'', r_depth = 2\<rparr>,
             \<lparr>r_name = ''c'', r_class = JStr ''Server'', r_type = ''Connects to'',
               r_direction = downstream, r_sys_id = ''C'', r_depth = 2\<rparr>],
          meta = \<lparr>meta_depth = 2, meta_direction = both, meta_total = 3\<rparr>\<rparr>,
     [GetCi ''R'', QueryRel (JStr ''R''), GetClass ''B'', QueryRel (JStr ''B''), GetClass ''C''])"
  by (simp add: eval_simps classless_client_def chain_client_def)

text \<open>
  C2. Where the run with a class filter returns a result, the run without the
  filter returns one too, with the same requests in the same order, and the
  result with the filter is that result narrowed to the edges whose class
  contains the filter: the nodes expanded are the same. On the chain R \<rightarrow> B \<rightarrow> C
  with B a switch and C a server, depth 2 and filter \<open>Server\<close>, the handler
  answers with the edge to C alone, and the rows of B were requested. But the run
  with the filter does not always return where the run without it does: on the
  same chain, where the answer to the lookup of the root R has no class, the run
  without the filter returns the three edges to B, back to R and to C; the run
  with the filter requests the rows of B and ends there with an error result
  (the text of the \<^verbatim>\<open>TypeError\<close> of \<^verbatim>\<open>otherClass.toLowerCase()\<close> on line 214,
  raised at the row from B back to R), whatever the lowering function. The class
  of the root is stored as the store gave it (line 95, line 114), without the
  \<open>unknown\<close> that \<^verbatim>\<open>getClass\<close> stores for the other nodes (line 124).
\<close>

theorem class_filter_root_class_missing:
  "(handler lc (a\<lparr>arg_class := Some f\<rparr>) cl cfg = (Inr res, cs) \<longrightarrow>
      (\<exists>res'. handler lc (a\<lparr>arg_class := None\<rparr>) cl cfg = (Inr res', cs)
         \<and> res = narrow_result lc (Some f) res'))
   \<and> relationships (narrow_result lc (Some f) res')
       = filter (\<lambda>x. class_shown lc (Some f) (r_class x) = Inr True) (relationships res')
   \<and> get_ci classless_client ''R'' = Reply (JObj [(''result'', JObj [(''sys_id'', JStr ''R''), (''name'', JStr ''r'')])])
   \<and> handler lc ((request None (Some ''R'') (Some 2) both)\<lparr>arg_class := Some ''Server''\<rparr>)
        classless_client default_config =
      (Inl (err (cannot_read JUndefined ''toLowerCase'')),
       [GetCi ''R'', QueryRel (JStr ''R''), GetClass ''B'', QueryRel (JStr ''B'')])
   \<and> cannot_read JUndefined ''toLowerCase''
       = ''Cannot read properties of undefined (reading '' @ [CHR 0x27] @ ''toLowerCase'' @ [CHR 0x27] @ '')''
   \<and> handler lc (request None (Some ''R'') (Some 2) both) classless_client default_config =
      (Inr \<lparr>root = \<lparr>root_name = JStr ''r'', root_class = JUndefined, root_sys_id = JStr ''R''\<rparr>,
            relationships =
              [\<lparr>r_name = ''b'', r_class = JStr ''Switch'', r_type = ''Connects to'',
                 r_direction = downstream, r_sys_id = ''B'', r_depth = 1\<rparr>,
               \<lparr>r_name = ''r'', r_class = JUndefined, r_type = ''Connects to'',
                 r_direction = upstream, r_sys_id = ''R'', r_depth = 2\<rparr>,
               \<lparr>r_name = ''c'', r_class = JStr ''Server'', r_type = ''Connects to'',
                 r_direction = downstream, r_sys_id = ''C'', r_depth = 2\<rparr>],
            meta = \<lparr>meta_depth = 2, meta_direction = both, meta_total = 3\<rparr>\<rparr>,
       [GetCi ''R'', QueryRel (JStr ''R''), GetClass ''B'', QueryRel (JStr ''B''), GetClass ''C''])
   \<and> class_shown lc (Some ''Server'') JUndefined = Inl (cannot_read JUndefined ''toLowerCase'')
   \<and> class_shown lc (Some ''Server'') (JStr c) = Inr (sublist (lc ''Server'') (lc c))
   \<and> class_shown lc None JUndefined = Inr True
   \<and> handler ascii_lower ((request None (Some ''R'') (Some 2) both)\<lparr>arg_class := Some ''Server''\<rparr>)
        chain_client default_config =
      (Inr \<lparr>root = \<lparr>root_name = JStr ''r'', root_class = JStr ''Router'', root_sys_id = JStr ''R''\<rparr>,
            relationships =
              [\<lparr>r_name = ''c'', r_class = JStr ''Server'', r_type = ''Connects to'',
                 r_direction = downstream, r_sys_id = ''C'', r_depth = 2\<rparr>],
            meta = \<lparr>meta_depth = 2, meta_direction = both, meta_total = 1\<rparr>\<rparr>,
       [GetCi ''R'', QueryRel (JStr ''R''), GetClass ''B'', QueryRel (JStr ''B''), GetClass ''C''])"
proof -
  have a: "get_ci classless_client ''R''
      = Reply (JObj [(''result'', JObj [(''sys_id'', JStr ''R''), (''name'', JStr ''r'')])])"
    by (simp add: classless_client_def body_def)
  have b: "cannot_read JUndefined ''toLowerCase''
       = ''Cannot read properties of undefined (reading '' @ [CHR 0x27] @ ''toLowerCase'' @ [CHR 0x27] @ '')''"
    by (simp add: cannot_read_def)
  have c: "class_shown lc (Some ''Server'') JUndefined = Inl (cannot_read JUndefined ''toLowerCase'')"
    "class_shown lc (Some ''Server'') (JStr c) = Inr (sublist (lc ''Server'') (lc c))"
    "class_shown lc None JUndefined = Inr True"
    by (simp_all add: class_shown_def includes_str_sublist)
  have g: "handler lc (a\<lparr>arg_class := Some f\<rparr>) cl cfg = (Inr res, cs) \<longrightarrow>
      (\<exists>res'. handler lc (a\<lparr>arg_class := None\<rparr>) cl cfg = (Inr res', cs)
         \<and> res = narrow_result lc (Some f) res')"
    using class_filter_when_returns [where lc = lc and a = a and flt = "Some f" and cl = cl
        and cfg = cfg and res = res and cs = cs] by blast
  have n: "relationships (narrow_result lc (Some f) res')
       = filter (\<lambda>x. class_shown lc (Some f) (r_class x) = Inr True) (relationships res')"
    by (simp add: narrow_result_def displayed_def [abs_def])
  show ?thesis by (intro conjI g n a b c classless_filtered_run classless_run chain_run)
qed

lemma chain_unfiltered_run:
  "handler ascii_lower ((request None (Some ''R'') (Some 2) both)\<lparr>arg_class := None\<rparr>)
      chain_client default_config =
    (Inr \<lparr>root = \<lparr>root_name = JStr ''r'', root_class = JStr ''Router'', root_sys_id = JStr ''R''\<rparr>,
          relationships =
            [\<lparr>r_name = ''b'', r_class = JStr ''Switch'', r_type = ''Connects to'',
               r_direction = downstream, r_sys_id = ''B'', r_depth = 1\<rparr>,
             \<lparr>r_name = ''r'', r_class = JStr ''Router'', r_type = ''Connects to'',
               r_direction = upstream, r_sys_id = ''R'', r_depth = 2\<rparr>,
             \<lparr>r_name = ''c'', r_class = JStr ''Server'', r_type = ''Connects to'',
               r_direction = downstream, r_sys_id = ''C'', r_depth = 2\<rparr>],
          meta = \<lparr>meta_depth = 2, meta_direction = both, meta_total = 3\<rparr>\<rparr>,
     [GetCi ''R'', QueryRel (JStr ''R''), GetClass ''B'', QueryRel (JStr ''B''), GetClass ''C''])"
  by (simp add: eval_simps chain_client_def)

theorem class_filter_root_class_missing_witness:
  "handler ascii_lower ((request None (Some ''R'') (Some 2) both)\<lparr>arg_class := Some ''Server''\<rparr>)
      chain_client default_config =
    (Inr \<lparr>root = \<lparr>root_name = JStr ''r'', root_class = JStr ''Router'', root_sys_id = JStr ''R''\<rparr>,
          relationships =
            [\<lparr>r_name = ''c'', r_class = JStr ''Server'', r_type = ''Connects to'',
               r_direction = downstream, r_sys_id = ''C'', r_depth = 2\<rparr>],
          meta = \<lparr>meta_depth = 2, meta_direction = both, meta_total = 1\<rparr>\<rparr>,
     [GetCi ''R'', QueryRel (JStr ''R''), GetClass ''B'', QueryRel (JStr ''B''), GetClass ''C''])
   \<and> (\<exists>res'. handler ascii_lower ((request None (Some ''R'') (Some 2) both)\<lparr>arg_class := None\<rparr>)
          chain_client default_config
        = (Inr res', [GetCi ''R'', QueryRel (JStr ''R''), GetClass ''B'', QueryRel (JStr ''B''),
                      GetClass ''C''])
        \<and> map r_sys_id (relationships res') = [''B'', ''R'', ''C'']
        \<and> map r_sys_id (relationships (narrow_result ascii_lower (Some ''Server'') res')) = [''C''])"
proof -
  let ?a = "request None (Some ''R'') (Some 2) both"
  let ?res = "\<lparr>root = \<lparr>root_name = JStr ''r'', root_class = JStr ''Router'', root_sys_id = JStr ''R''\<rparr>,
          relationships =
            [\<lparr>r_name = ''c'', r_class = JStr ''Server'', r_type = ''Connects to'',
               r_direction = downstream, r_sys_id = ''C'', r_depth = 2\<rparr>],
          meta = \<lparr>meta_depth = 2, meta_direction = both, meta_total = 1\<rparr>\<rparr>"
  let ?cs = "[GetCi ''R'', QueryRel (JStr ''R''), GetClass ''B'', QueryRel (JStr ''B''), GetClass ''C'']"
  have run: "handler ascii_lower (?a\<lparr>arg_class := Some ''Server''\<rparr>) chain_client default_config
      = (Inr ?res, ?cs)"
    by (rule chain_run)
  have "handler ascii_lower (?a\<lparr>arg_class := Some ''Server''\<rparr>) chain_client default_config
      = (Inr ?res, ?cs) \<longrightarrow>
      (\<exists>res'. handler ascii_lower (?a\<lparr>arg_class := None\<rparr>) chain_client default_config
          = (Inr res', ?cs)
         \<and> ?res = narrow_result ascii_lower (Some ''Server'') res')"
    using class_filter_root_class_missing [where lc = ascii_lower and a = ?a and f = "''Server''"
      and cl = chain_client and cfg = default_config and res = ?res and cs = ?cs]
    by (rule conjunct1)
  with run obtain res' where r: "handler ascii_lower (?a\<lparr>arg_class := None\<rparr>) chain_client default_config
      = (Inr res', ?cs)" "?res = narrow_result ascii_lower (Some ''Server'') res'"
    by blast
  have 1: "map r_sys_id (relationships res') = [''B'', ''R'', ''C'']"
    using r(1) chain_unfiltered_run by auto
  have 2: "map r_sys_id (relationships (narrow_result ascii_lower (Some ''Server'') res')) = [''C'']"
    using r(2) [symmetric] by simp
  show ?thesis
  proof (intro conjI exI [of _ res'])
    show "handler ascii_lower (?a\<lparr>arg_class := Some ''Server''\<rparr>) chain_client default_config
        = (Inr ?res, ?cs)" by (rule run)
  qed (rule r(1) 1 2)+
qed

end
